theory Spec2Isabelle
  imports Complex_Main "HOL-Library.Product_Lexorder" "HOL-Library.Finite_Map"
begin

section \<open>The tree sequence of msprime/trees.py\<close>

text \<open>
  The embedding follows \<^verbatim>\<open>src/msprime/trees.py\<close>. The breakpoints and the
  record arrays \<^verbatim>\<open>left\<close>, \<^verbatim>\<open>right\<close>, \<^verbatim>\<open>children\<close> and \<^verbatim>\<open>parent\<close> are numpy
  arrays of \<^verbatim>\<open>uint32\<close>: a locus is an \<open>int\<close> and a node identifier a \<open>nat\<close>, the
  constructor stores them modulo \<open>2 ^ 32\<close>, and the difference of two entries is
  taken modulo \<open>2 ^ 32\<close>. Times are \<^verbatim>\<open>double\<close> values, idealised as \<open>real\<close>. A
  Python exception is a value of \<open>pyerror\<close>. A generator is the list of what it
  yields together with how it ends: exhausted, by raising, or by never returning.
\<close>

datatype pyerror = KeyError | IndexError | UnboundLocalError | AssertionError
  | ValueError | ZeroDivisionError | OverflowError

datatype status = Exhausted | Raised pyerror | Hangs

type_synonym node = nat
type_synonym crecord = "int \<times> int \<times> (node \<times> node) \<times> node \<times> real"
type_synonym edge = "(node \<times> node) \<times> node \<times> real"
type_synonym diff = "int \<times> edge list \<times> edge list"

definition rec_left :: "crecord \<Rightarrow> int" where
  "rec_left r = fst r"

definition rec_right :: "crecord \<Rightarrow> int" where
  "rec_right r = fst (snd r)"

definition rec_children :: "crecord \<Rightarrow> node \<times> node" where
  "rec_children r = fst (snd (snd r))"

definition rec_parent :: "crecord \<Rightarrow> node" where
  "rec_parent r = fst (snd (snd (snd r)))"

definition rec_time :: "crecord \<Rightarrow> real" where
  "rec_time r = snd (snd (snd (snd r)))"

text \<open>
  \<^verbatim>\<open>TreeSequence\<close>: the breakpoints, the five record arrays, and the two
  parameters the traversals read (\<^verbatim>\<open>sample_size\<close>, \<^verbatim>\<open>num_loci\<close>).
\<close>

record tree_sequence =
  ts_breakpoints :: "int list"
  ts_left :: "int list"
  ts_right :: "int list"
  ts_children :: "(node \<times> node) list"
  ts_parent :: "node list"
  ts_time :: "real list"
  ts_sample_size :: nat
  ts_num_loci :: int

text \<open>
  \<^verbatim>\<open>a[p]\<close> for an index array \<^verbatim>\<open>p\<close>: numpy raises IndexError when an index
  is out of range.
\<close>

definition take_indices :: "'a list \<Rightarrow> nat list \<Rightarrow> pyerror + 'a list" where
  "take_indices xs p =
     (if list_all (\<lambda>i. i < length xs) p then Inr (map (\<lambda>i. xs ! i) p) else Inl IndexError)"

text \<open>
  \<^verbatim>\<open>uint32\<close> arithmetic. \<^verbatim>\<open>np.array(xs, dtype="uint32")\<close> (lines 301-306) stores a
  Python integer by the cast of C, modulo \<open>2 ^ 32\<close>: \<open>-1\<close> is stored as
  \<open>4294967295\<close>. An integer that is neither a \<^verbatim>\<open>long\<close> nor an \<^verbatim>\<open>unsigned long\<close> of C
  is refused with an OverflowError. The difference of two \<^verbatim>\<open>uint32\<close> scalars is a
  \<^verbatim>\<open>uint32\<close> scalar: it wraps around below zero.
\<close>

definition uint32 :: "int \<Rightarrow> int" where
  "uint32 x = x mod 2 ^ 32"

definition sub32 :: "int \<Rightarrow> int \<Rightarrow> int" where
  "sub32 a b = uint32 (a - b)"

definition c_long :: "int \<Rightarrow> bool" where
  "c_long x = (- (2 ^ 63) \<le> x \<and> x < 2 ^ 64)"

definition uint32_array :: "int list \<Rightarrow> pyerror + int list" where
  "uint32_array xs = (if list_all c_long xs then Inr (map uint32 xs) else Inl OverflowError)"

definition uint32_nodes :: "int list \<Rightarrow> pyerror + node list" where
  "uint32_nodes xs =
     (if list_all c_long xs then Inr (map (\<lambda>x. nat (uint32 x)) xs) else Inl OverflowError)"

definition uint32_pairs :: "(int \<times> int) list \<Rightarrow> pyerror + (node \<times> node) list" where
  "uint32_pairs xs =
     (if list_all (\<lambda>(a, b). c_long a \<and> c_long b) xs
      then Inr (map (\<lambda>(a, b). (nat (uint32 a), nat (uint32 b))) xs) else Inl OverflowError)"

text \<open>
  \<^verbatim>\<open>TreeSequence.__init__\<close> (lines 296-318). The breakpoints and four of the record
  arrays are converted to \<^verbatim>\<open>uint32\<close>. \<^verbatim>\<open>np.argsort\<close> is numpy's; it is the
  parameter \<open>argsort\<close>, applied to the converted \<^verbatim>\<open>left\<close>. The arrays are permuted
  only when \<^verbatim>\<open>sort_records\<close> is true; its default is false.
\<close>

definition TreeSequence_init ::
  "(int list \<Rightarrow> nat list) \<Rightarrow> int list \<Rightarrow> int list \<Rightarrow> int list \<Rightarrow> (int \<times> int) list \<Rightarrow>
   int list \<Rightarrow> real list \<Rightarrow> nat \<Rightarrow> int \<Rightarrow> bool \<Rightarrow> pyerror + tree_sequence" where
  "TreeSequence_init argsort breakpoints left right children parent time sample_size num_loci
       sort_records =
     (case uint32_array breakpoints of Inl e \<Rightarrow> Inl e | Inr breakpoints32 \<Rightarrow>
      case uint32_array left of Inl e \<Rightarrow> Inl e | Inr left32 \<Rightarrow>
      case uint32_array right of Inl e \<Rightarrow> Inl e | Inr right32 \<Rightarrow>
      case uint32_pairs children of Inl e \<Rightarrow> Inl e | Inr children32 \<Rightarrow>
      case uint32_nodes parent of Inl e \<Rightarrow> Inl e | Inr parent32 \<Rightarrow>
        if sort_records then
          (let p = argsort left32 in
           case take_indices left32 p of Inl e \<Rightarrow> Inl e | Inr left' \<Rightarrow>
           case take_indices right32 p of Inl e \<Rightarrow> Inl e | Inr right' \<Rightarrow>
           case take_indices children32 p of Inl e \<Rightarrow> Inl e | Inr children' \<Rightarrow>
           case take_indices parent32 p of Inl e \<Rightarrow> Inl e | Inr parent' \<Rightarrow>
           case take_indices time p of Inl e \<Rightarrow> Inl e | Inr time' \<Rightarrow>
             Inr \<lparr>ts_breakpoints = breakpoints32, ts_left = left', ts_right = right',
                  ts_children = children', ts_parent = parent', ts_time = time',
                  ts_sample_size = sample_size, ts_num_loci = num_loci\<rparr>)
        else
          Inr \<lparr>ts_breakpoints = breakpoints32, ts_left = left32, ts_right = right32,
               ts_children = children32, ts_parent = parent32, ts_time = time,
               ts_sample_size = sample_size, ts_num_loci = num_loci\<rparr>)"

text \<open>
  \<^verbatim>\<open>dump\<close> writes the arrays and the parameters to a container, \<^verbatim>\<open>load\<close>
  (lines 356-366) reads them back and calls the constructor without
  \<^verbatim>\<open>sort_records\<close>. The container is the record of what is stored; its datasets
  hand the constructor the integers they hold.
\<close>

definition dump :: "tree_sequence \<Rightarrow> tree_sequence" where
  "dump ts = ts"

definition load :: "(int list \<Rightarrow> nat list) \<Rightarrow> tree_sequence \<Rightarrow> pyerror + tree_sequence" where
  "load argsort f =
     TreeSequence_init argsort (ts_breakpoints f) (ts_left f) (ts_right f)
       (map (\<lambda>(a, b). (int a, int b)) (ts_children f)) (map int (ts_parent f)) (ts_time f)
       (ts_sample_size f) (ts_num_loci f) False"

text \<open>The arrays of a tree sequence hold \<^verbatim>\<open>uint32\<close> values.\<close>

definition uint32_arrays :: "tree_sequence \<Rightarrow> bool" where
  "uint32_arrays ts =
     (list_all (\<lambda>x. 0 \<le> x \<and> x < 2 ^ 32) (ts_breakpoints ts) \<and>
      list_all (\<lambda>x. 0 \<le> x \<and> x < 2 ^ 32) (ts_left ts) \<and>
      list_all (\<lambda>x. 0 \<le> x \<and> x < 2 ^ 32) (ts_right ts) \<and>
      list_all (\<lambda>(a, b). a < 2 ^ 32 \<and> b < 2 ^ 32) (ts_children ts) \<and>
      list_all (\<lambda>p. p < 2 ^ 32) (ts_parent ts))"

text \<open>\<^verbatim>\<open>records\<close> (lines 383-385): \<^verbatim>\<open>zip\<close> stops at the shortest array.\<close>

definition records :: "tree_sequence \<Rightarrow> crecord list" where
  "records ts =
     zip (ts_left ts) (zip (ts_right ts) (zip (ts_children ts) (zip (ts_parent ts) (ts_time ts))))"

subsection \<open>The sparse-tree generator\<close>

text \<open>
  \<^verbatim>\<open>sparse_trees\<close> (lines 387-421) creates two dictionaries, \<^verbatim>\<open>pi\<close> and
  \<^verbatim>\<open>tau\<close>, once, mutates them in place and yields them at every interval. The
  store maps an address to a dictionary object; \<open>pi_addr\<close> and \<open>tau_addr\<close> are
  the addresses of the two objects. What is yielded is the triple of the
  interval length and the two addresses; \<open>y_store\<close> is the store at the moment
  of the yield.
\<close>

datatype dict_obj = Parent_dict "node \<rightharpoonup> node" | Time_dict "node \<rightharpoonup> real"

type_synonym store = "nat \<rightharpoonup> dict_obj"

record yielded =
  y_length :: int
  y_parent_map :: nat
  y_time_map :: nat
  y_store :: store

definition pi_addr :: nat where
  "pi_addr = 0"

definition tau_addr :: nat where
  "tau_addr = 1"

definition read_parent_map :: "store \<Rightarrow> nat \<Rightarrow> (node \<rightharpoonup> node)" where
  "read_parent_map h a = (case h a of Some (Parent_dict m) \<Rightarrow> m | _ \<Rightarrow> Map.empty)"

definition read_time_map :: "store \<Rightarrow> nat \<Rightarrow> (node \<rightharpoonup> real)" where
  "read_time_map h a = (case h a of Some (Time_dict m) \<Rightarrow> m | _ \<Rightarrow> Map.empty)"

definition yield_tree :: "int \<Rightarrow> (node \<rightharpoonup> node) \<Rightarrow> (node \<rightharpoonup> real) \<Rightarrow> yielded" where
  "yield_tree n pim taum =
     \<lparr>y_length = n, y_parent_map = pi_addr, y_time_map = tau_addr,
      y_store = [pi_addr \<mapsto> Parent_dict pim, tau_addr \<mapsto> Time_dict taum]\<rparr>"

text \<open>The snapshot a consumer reads from a yielded triple when it is yielded.\<close>

definition snapshot_pi :: "yielded \<Rightarrow> (node \<rightharpoonup> node)" where
  "snapshot_pi y = read_parent_map (y_store y) (y_parent_map y)"

definition snapshot_tau :: "yielded \<Rightarrow> (node \<rightharpoonup> real)" where
  "snapshot_tau y = read_time_map (y_store y) (y_time_map y)"

text \<open>\<^verbatim>\<open>del d[k]\<close> raises KeyError when the key is absent.\<close>

definition del_item :: "('k \<rightharpoonup> 'v) \<Rightarrow> 'k \<Rightarrow> pyerror + ('k \<rightharpoonup> 'v)" where
  "del_item d k = (if d k = None then Inl KeyError else Inr (d(k := None)))"

text \<open>
  \<^verbatim>\<open>live_segments\<close> is a \<^verbatim>\<open>heapq\<close> heap of tuples
  \<^verbatim>\<open>(r, (tuple(children), parent))\<close>. Python orders tuples lexicographically, so
  the heap is a priority queue for a total order: it is kept here as the
  sorted list of its entries, \<^verbatim>\<open>heappush\<close> inserts in order, \<^verbatim>\<open>live_segments[0]\<close>
  is the head and \<^verbatim>\<open>heappop\<close> removes it.
\<close>

type_synonym segment = "int \<times> (node \<times> node) \<times> node"

definition heappush :: "segment list \<Rightarrow> segment \<Rightarrow> segment list" where
  "heappush h x = insort x h"

text \<open>
  The eviction loop (lines 408-413). \<^verbatim>\<open>live_segments[0]\<close> on an empty heap is
  an IndexError.
\<close>

fun evict ::
  "int \<Rightarrow> segment list \<Rightarrow> (node \<rightharpoonup> node) \<Rightarrow> (node \<rightharpoonup> real) \<Rightarrow>
   pyerror + (segment list \<times> (node \<rightharpoonup> node) \<times> (node \<rightharpoonup> real))" where
  "evict l [] pim taum = Inl IndexError"
| "evict l ((x, (c0, c1), p) # h) pim taum =
     (if x \<le> l then
        (case del_item pim c0 of Inl e \<Rightarrow> Inl e | Inr pim1 \<Rightarrow>
         case del_item pim1 c1 of Inl e \<Rightarrow> Inl e | Inr pim2 \<Rightarrow>
         case del_item taum p of Inl e \<Rightarrow> Inl e | Inr taum1 \<Rightarrow>
           evict l h pim2 taum1)
      else Inr ((x, (c0, c1), p) # h, pim, taum))"

text \<open>
  The loop over the records (lines 395-416) and the final yield (line 421). The
  arguments after the record list are the locals \<^verbatim>\<open>l\<close>, \<^verbatim>\<open>last_l\<close>,
  \<^verbatim>\<open>live_segments\<close>, and the contents \<open>pim\<close> and \<open>taum\<close> of \<^verbatim>\<open>pi\<close> and
  \<^verbatim>\<open>tau\<close>. \<^verbatim>\<open>l - last_l\<close> is a difference of \<^verbatim>\<open>uint32\<close> scalars (\<^verbatim>\<open>last_l\<close> is
  the integer 0 until the first yield, and the difference is then \<^verbatim>\<open>l\<close> itself);
  in the final yield \<^verbatim>\<open>num_loci\<close> is a Python integer, and the difference is that
  of the integers.
\<close>

fun sparse_trees_loop ::
  "int \<Rightarrow> crecord list \<Rightarrow> int \<Rightarrow> int \<Rightarrow> segment list \<Rightarrow> (node \<rightharpoonup> node) \<Rightarrow> (node \<rightharpoonup> real) \<Rightarrow>
   yielded list \<times> status" where
  "sparse_trees_loop num_loci [] l last_l live pim taum =
     ([yield_tree (num_loci - l) pim taum], Exhausted)"
| "sparse_trees_loop num_loci ((l', r, (c0, c1), parent, t) # rs) l last_l live pim taum =
     (let ys = (if last_l \<noteq> l' then [yield_tree (sub32 l' last_l) pim taum] else []);
          last_l' = (if last_l \<noteq> l' then l' else last_l)
      in case evict l' (heappush live (r, (c0, c1), parent)) pim taum of
           Inl e \<Rightarrow> (ys, Raised e)
         | Inr (live', pim', taum') \<Rightarrow>
             (case sparse_trees_loop num_loci rs l' last_l' live'
                     (pim'(c0 \<mapsto> parent, c1 \<mapsto> parent)) (taum'(parent \<mapsto> t)) of
                (zs, st) \<Rightarrow> (ys @ zs, st)))"

definition sparse_trees :: "tree_sequence \<Rightarrow> yielded list \<times> status" where
  "sparse_trees ts =
     sparse_trees_loop (ts_num_loci ts) (records ts) 0 0 [] Map.empty
       (\<lambda>j. if 1 \<le> j \<and> j \<le> ts_sample_size ts then Some 0 else None)"

subsection \<open>The diff generators\<close>

text \<open>
  \<^verbatim>\<open>_diffs\<close> (lines 423-440). \<^verbatim>\<open>used_records\<close> is a
  \<^verbatim>\<open>defaultdict(list)\<close>: a missing key reads as the empty list, and
  \<^verbatim>\<open>del\<close> makes the key missing again. \<open>r_last\<close> is the local \<^verbatim>\<open>r\<close>, unbound
  (\<open>None\<close>) until the loop has run once; the final yield reads it. \<^verbatim>\<open>l - left\<close>
  and \<^verbatim>\<open>r - left\<close> are differences of \<^verbatim>\<open>uint32\<close> scalars (\<^verbatim>\<open>left\<close> is the integer 0
  until the first change of run, and the difference is then the \<^verbatim>\<open>uint32\<close> itself).
\<close>

fun diffs_loop ::
  "crecord list \<Rightarrow> int \<Rightarrow> (int \<Rightarrow> edge list) \<Rightarrow> edge list \<Rightarrow> int option \<Rightarrow> diff list \<times> status" where
  "diffs_loop [] left used_records records_in r_last =
     (case r_last of
        None \<Rightarrow> ([], Raised UnboundLocalError)
      | Some r \<Rightarrow> ([(sub32 r left, used_records left, records_in)], Exhausted))"
| "diffs_loop ((l, r, c, parent, t) # rs) left used_records records_in r_last =
     (if l \<noteq> left then
        (let used1 = used_records(left := []) in
         case diffs_loop rs l (used1(r := used1 r @ [(c, parent, t)])) [(c, parent, t)] (Some r) of
           (ys, st) \<Rightarrow> ((sub32 l left, used_records left, records_in) # ys, st))
      else
        diffs_loop rs left (used_records(r := used_records r @ [(c, parent, t)]))
          (records_in @ [(c, parent, t)]) (Some r))"

definition diffs_plain :: "tree_sequence \<Rightarrow> diff list \<times> status" where
  "diffs_plain ts = diffs_loop (records ts) 0 (\<lambda>_. []) [] None"

text \<open>
  \<^verbatim>\<open>_diffs_with_breaks\<close> (lines 442-452). The inner loop advances \<^verbatim>\<open>k\<close> until
  the breakpoint equals \<^verbatim>\<open>x\<close>; reading \<^verbatim>\<open>b[k]\<close> past the end of the array is an
  IndexError, which bounds the loop. \<^verbatim>\<open>b[k] - b[k - 1]\<close> is a difference of
  \<^verbatim>\<open>uint32\<close> scalars; \<^verbatim>\<open>x\<close> is a sum of integers.
\<close>

function breaks_while :: "int list \<Rightarrow> int \<Rightarrow> nat \<Rightarrow> diff list \<times> (pyerror + nat)" where
  "breaks_while b x k =
     (if length b \<le> k then ([], Inl IndexError)
      else if b ! k \<noteq> x then
        (if length b \<le> Suc k then ([], Inl IndexError)
         else (case breaks_while b x (Suc k) of
                 (ys, res) \<Rightarrow> ((sub32 (b ! Suc k) (b ! k), [], []) # ys, res)))
      else ([], Inr k))"
  by pat_completeness auto
termination
  by (relation "measure (\<lambda>(b, x, k). length b - k)") auto

declare breaks_while.simps [simp del]

fun breaks_loop :: "int list \<Rightarrow> diff list \<Rightarrow> nat \<Rightarrow> int \<Rightarrow> diff list \<times> status" where
  "breaks_loop b [] k x = ([], Exhausted)"
| "breaks_loop b ((len, records_out, records_in) # ds) k x =
     (if length b \<le> k then ([], Raised IndexError)
      else
        (case breaks_while b (x + len) k of
           (ys, Inl e) \<Rightarrow> ((sub32 (b ! k) (b ! (k - 1)), records_out, records_in) # ys, Raised e)
         | (ys, Inr k') \<Rightarrow>
             (case breaks_loop b ds (Suc k') (x + len) of
                (zs, st) \<Rightarrow>
                  ((sub32 (b ! k) (b ! (k - 1)), records_out, records_in) # ys @ zs, st))))"

definition diffs_with_breaks :: "tree_sequence \<Rightarrow> diff list \<times> status" where
  "diffs_with_breaks ts =
     (case diffs_plain ts of
        (ds, st) \<Rightarrow>
          (case breaks_loop (ts_breakpoints ts) ds 1 0 of
             (ys, Exhausted) \<Rightarrow> (ys, st)
           | (ys, st') \<Rightarrow> (ys, st')))"

text \<open>\<^verbatim>\<open>diffs\<close> (lines 454-458).\<close>

definition diffs :: "tree_sequence \<Rightarrow> bool \<Rightarrow> diff list \<times> status" where
  "diffs ts all_breaks = (if all_breaks then diffs_with_breaks ts else diffs_plain ts)"

subsection \<open>A tree sequence with two intervals\<close>

text \<open>
  Three samples, ten loci. On \<open>[0, 4)\<close> the tree is \<open>((1,2)4,3)5\<close>, on \<open>[4, 10)\<close> it
  is \<open>((1,2)4,3)6\<close>: the edge below node 4 spans both intervals.
\<close>

definition ts_ex :: tree_sequence where
  "ts_ex = \<lparr>ts_breakpoints = [0, 4, 10], ts_left = [0, 0, 4], ts_right = [10, 4, 10],
     ts_children = [(1, 2), (3, 4), (3, 4)], ts_parent = [4, 5, 6], ts_time = [1, 2, 3],
     ts_sample_size = 3, ts_num_loci = 10\<rparr>"

text \<open>A container whose record arrays are not sorted by \<^verbatim>\<open>left\<close>.\<close>

definition unsorted_container :: tree_sequence where
  "unsorted_container = \<lparr>ts_breakpoints = [0, 4, 10], ts_left = [4, 0, 0], ts_right = [10, 10, 4],
     ts_children = [(3, 4), (1, 2), (3, 4)], ts_parent = [6, 4, 5], ts_time = [3, 1, 2],
     ts_sample_size = 3, ts_num_loci = 10\<rparr>"

subsection \<open>Valid tree sequences\<close>

text \<open>
  What the traversals assume of their input (section 3 of the specification):
  the records are sorted by \<^verbatim>\<open>left\<close>; every record has
  \<^verbatim>\<open>0 \<le> left < right \<le> num_loci\<close>, its \<^verbatim>\<open>right\<close> being a \<^verbatim>\<open>uint32\<close> value as the
  array holds it, two different children and a parent that is not a sample; a
  record ends at \<^verbatim>\<open>num_loci\<close> or where another record starts; and two records
  that overlap have different parents and no child in common.
\<close>

definition compatible :: "crecord \<Rightarrow> crecord \<Rightarrow> bool" where
  "compatible a b =
     (rec_right a \<le> rec_left b \<or>
      (rec_parent a \<noteq> rec_parent b \<and>
       fst (rec_children a) \<noteq> fst (rec_children b) \<and>
       fst (rec_children a) \<noteq> snd (rec_children b) \<and>
       snd (rec_children a) \<noteq> fst (rec_children b) \<and>
       snd (rec_children a) \<noteq> snd (rec_children b)))"

definition well_formed_record :: "nat \<Rightarrow> int \<Rightarrow> crecord list \<Rightarrow> crecord \<Rightarrow> bool" where
  "well_formed_record n m rs rc =
     (0 \<le> rec_left rc \<and> rec_left rc < rec_right rc \<and> rec_right rc \<le> m \<and>
      rec_right rc < 2 ^ 32 \<and> fst (rec_children rc) \<noteq> snd (rec_children rc) \<and> n < rec_parent rc \<and>
      (rec_right rc = m \<or> rec_right rc \<in> rec_left ` set rs))"

definition valid_records :: "nat \<Rightarrow> int \<Rightarrow> crecord list \<Rightarrow> bool" where
  "valid_records n m rs =
     (rs \<noteq> [] \<and> sorted (map rec_left rs) \<and> list_all (well_formed_record n m rs) rs \<and>
      sorted_wrt compatible rs)"

text \<open>
  The breakpoints are strictly increasing from 0 and hold every \<^verbatim>\<open>left\<close> of a
  record and \<^verbatim>\<open>num_loci\<close>.
\<close>

definition valid_breakpoints :: "int list \<Rightarrow> int \<Rightarrow> crecord list \<Rightarrow> bool" where
  "valid_breakpoints b m rs =
     (b \<noteq> [] \<and> hd b = 0 \<and> sorted_wrt (<) b \<and> m \<in> set b \<and> rec_left ` set rs \<subseteq> set b)"

definition valid_tree_sequence :: "tree_sequence \<Rightarrow> bool" where
  "valid_tree_sequence ts =
     (valid_records (ts_sample_size ts) (ts_num_loci ts) (records ts) \<and>
      valid_breakpoints (ts_breakpoints ts) (ts_num_loci ts) (records ts))"

text \<open>
  Fully coalesced: at locus 0 and at every \<^verbatim>\<open>left\<close>, exactly
  \<^verbatim>\<open>sample_size - 1\<close> records cover the locus.
\<close>

definition fully_coalesced :: "tree_sequence \<Rightarrow> bool" where
  "fully_coalesced ts =
     list_all
       (\<lambda>x. int (length (filter (\<lambda>rc. rec_left rc \<le> x \<and> x < rec_right rc) (records ts))) =
            int (ts_sample_size ts) - 1)
       (0 # map rec_left (records ts))"

subsection \<open>The state of the sparse-tree generator between two records\<close>

definition seg_of :: "crecord \<Rightarrow> segment" where
  "seg_of rc = (rec_right rc, rec_children rc, rec_parent rc)"

definition seg_c0 :: "segment \<Rightarrow> node" where
  "seg_c0 s = fst (fst (snd s))"

definition seg_c1 :: "segment \<Rightarrow> node" where
  "seg_c1 s = snd (fst (snd s))"

definition seg_parent :: "segment \<Rightarrow> node" where
  "seg_parent s = snd (snd s)"

definition st_inv :: "nat \<Rightarrow> segment list \<Rightarrow> (node \<rightharpoonup> node) \<Rightarrow> (node \<rightharpoonup> real) \<Rightarrow> bool" where
  "st_inv n live pim taum =
     (sorted live \<and> distinct (map seg_parent live) \<and>
      (\<forall>s\<in>set live. seg_c0 s \<noteq> seg_c1 s \<and> pim (seg_c0 s) = Some (seg_parent s) \<and>
          pim (seg_c1 s) = Some (seg_parent s) \<and> n < seg_parent s) \<and>
      dom pim = (\<Union>s\<in>set live. {seg_c0 s, seg_c1 s}) \<and>
      dom taum = {1..n} \<union> seg_parent ` set live)"

text \<open>The records that cover a locus.\<close>

definition covering :: "int \<Rightarrow> crecord list \<Rightarrow> crecord list" where
  "covering x rs = filter (\<lambda>rc. rec_left rc \<le> x \<and> x < rec_right rc) rs"

subsection \<open>Diff streams that follow the breakpoints\<close>

text \<open>
  Starting at locus \<open>x\<close>, every interval of the diff stream has a positive length
  and ends on a breakpoint.
\<close>

fun on_breaks :: "int list \<Rightarrow> int \<Rightarrow> diff list \<Rightarrow> bool" where
  "on_breaks b x [] = True"
| "on_breaks b x ((len, records_out, records_in) # ds) =
     (0 < len \<and> x + len \<in> set b \<and> on_breaks b (x + len) ds)"

text \<open>
  The tree sequence \<open>ts_ex\<close> with its last record cut at locus 7: no record
  reaches \<^verbatim>\<open>num_loci\<close> on the right of 7.
\<close>

definition ts_open :: tree_sequence where
  "ts_open = \<lparr>ts_breakpoints = [0, 4, 10], ts_left = [0, 0, 4], ts_right = [10, 4, 7],
     ts_children = [(1, 2), (3, 4), (3, 4)], ts_parent = [4, 5, 6], ts_time = [1, 2, 3],
     ts_sample_size = 3, ts_num_loci = 10\<rparr>"

text \<open>
  The tree sequence \<open>ts_ex\<close> with a last record whose \<^verbatim>\<open>right\<close> is 2, below its
  \<^verbatim>\<open>left\<close>.
\<close>

definition ts_back :: tree_sequence where
  "ts_back = \<lparr>ts_breakpoints = [0, 4, 10], ts_left = [0, 0, 4], ts_right = [10, 4, 2],
     ts_children = [(1, 2), (3, 4), (3, 4)], ts_parent = [4, 5, 6], ts_time = [1, 2, 3],
     ts_sample_size = 3, ts_num_loci = 10\<rparr>"

subsection \<open>The Newick generator\<close>

text \<open>
  The dictionaries of a \<^verbatim>\<open>NewickGenerator\<close> are finite maps, so that \<^verbatim>\<open>len\<close> is the
  size of the domain. A computation that may raise, or may never return (\<open>None\<close>),
  has a result of type \<open>res\<close>: the loop of \<^verbatim>\<open>next\<close> that looks for the root follows
  parent links without a bound of its own.
\<close>

type_synonym 'a res = "(pyerror + 'a) option"

definition bind_res :: "'a res \<Rightarrow> ('a \<Rightarrow> 'b res) \<Rightarrow> 'b res" where
  "bind_res m f = (case m of None \<Rightarrow> None | Some (Inl e) \<Rightarrow> Some (Inl e) | Some (Inr x) \<Rightarrow> f x)"

fun fold_err :: "('a \<Rightarrow> 's \<Rightarrow> pyerror + 's) \<Rightarrow> 'a list \<Rightarrow> 's \<Rightarrow> pyerror + 's" where
  "fold_err f [] s = Inr s"
| "fold_err f (x # xs) s = (case f x s of Inl e \<Rightarrow> Inl e | Inr s' \<Rightarrow> fold_err f xs s')"

text \<open>
  The attributes of a \<^verbatim>\<open>NewickGenerator\<close> (lines 468-477). \<^verbatim>\<open>_root\<close> does not
  exist before the first \<^verbatim>\<open>next\<close>, which assigns it before reading it.
\<close>

record newick_generator =
  ng_sample_size :: nat
  ng_precision :: nat
  ng_children :: "(node, node \<times> node) fmap"
  ng_branch_length :: "(node, string) fmap"
  ng_time :: "(node, real) fmap"
  ng_parent :: "(node, node) fmap"
  ng_subtree :: "(node, string) fmap"
  ng_root :: node

definition NewickGenerator_init :: "nat \<Rightarrow> nat \<Rightarrow> newick_generator" where
  "NewickGenerator_init sample_size precision =
     \<lparr>ng_sample_size = sample_size, ng_precision = precision, ng_children = fmempty,
      ng_branch_length = fmempty,
      ng_time = fmap_of_list (map (\<lambda>j. (j, 0)) [1..<Suc sample_size]),
      ng_parent = fmempty, ng_subtree = fmempty, ng_root = 0\<rparr>"

text \<open>
  \<^verbatim>\<open>_propogate_subtree_loss\<close> (lines 516-525): delete the cached strings of the
  node and of its ancestors, up to the first node that has none. At a node
  without a parent \<^verbatim>\<open>k\<close> stays, and the loop ends at its next test. Every
  iteration deletes an entry of the finite dictionary, so the loop ends.
\<close>

function propogate_subtree_loss ::
  "(node, node) fmap \<Rightarrow> (node, string) fmap \<Rightarrow> node \<Rightarrow> (node, string) fmap" where
  "propogate_subtree_loss parent subtree k =
     (if fmlookup subtree k \<noteq> None then
        propogate_subtree_loss parent (fmdrop k subtree)
          (case fmlookup parent k of Some q \<Rightarrow> q | None \<Rightarrow> k)
      else subtree)"
  by pat_completeness auto
termination
proof (relation "measure (\<lambda>(parent, subtree, k). fcard (fmdom subtree))")
  show "wf (measure (\<lambda>(parent, subtree, k). fcard (fmdom subtree)))" by simp
next
  fix parent :: "(node, node) fmap" and subtree :: "(node, string) fmap" and k
  assume "fmlookup subtree k \<noteq> None"
  then have "k |\<in>| fmdom subtree" by (simp add: fmlookup_dom_iff)
  then have "fcard (fmdom subtree |-| {|k|}) < fcard (fmdom subtree)"
    by (rule fcard_fminus1_less)
  then show "((parent, fmdrop k subtree, case fmlookup parent k of None \<Rightarrow> k | Some q \<Rightarrow> q),
              parent, subtree, k) \<in> measure (\<lambda>(parent, subtree, k). fcard (fmdom subtree))"
    by simp
qed

declare propogate_subtree_loss.simps [simp del]

text \<open>The first loop of \<^verbatim>\<open>next\<close> (lines 487-493), for one record and one child.\<close>

definition out_child :: "node \<Rightarrow> newick_generator \<Rightarrow> pyerror + newick_generator" where
  "out_child j s =
     (if fmlookup (ng_parent s) j = None then Inl KeyError
      else if fmlookup (ng_branch_length s) j = None then Inl KeyError
      else Inr (s\<lparr>ng_subtree := propogate_subtree_loss (ng_parent s) (ng_subtree s) j,
                    ng_parent := fmdrop j (ng_parent s),
                    ng_branch_length := fmdrop j (ng_branch_length s)\<rparr>))"

definition out_record :: "edge \<Rightarrow> newick_generator \<Rightarrow> pyerror + newick_generator" where
  "out_record e s =
     (case e of ((c0, c1), parent, t) \<Rightarrow>
        if fmlookup (ng_children s) parent = None then Inl KeyError
        else if fmlookup (ng_time s) parent = None then Inl KeyError
        else
          (case out_child c0 (s\<lparr>ng_children := fmdrop parent (ng_children s),
                                  ng_time := fmdrop parent (ng_time s)\<rparr>) of
             Inl err \<Rightarrow> Inl err
           | Inr s' \<Rightarrow> out_child c1 s'))"

text \<open>The second loop (lines 494-499); nothing in it can raise.\<close>

definition in_child :: "node \<Rightarrow> node \<Rightarrow> newick_generator \<Rightarrow> newick_generator" where
  "in_child parent j s =
     s\<lparr>ng_parent := fmupd j parent (ng_parent s),
       ng_subtree := propogate_subtree_loss (fmupd j parent (ng_parent s)) (ng_subtree s) j\<rparr>"

definition in_record :: "edge \<Rightarrow> newick_generator \<Rightarrow> newick_generator" where
  "in_record e s =
     (case e of ((c0, c1), parent, t) \<Rightarrow>
        (let s1 = s\<lparr>ng_children := fmupd parent (c0, c1) (ng_children s)\<rparr>;
             s2 = in_child parent c1 (in_child parent c0 s1)
         in s2\<lparr>ng_time := fmupd parent t (ng_time s2)\<rparr>))"

text \<open>
  The third loop (lines 501-505). The format \<^verbatim>\<open>"{0:.{1}f}"\<close> of a \<^verbatim>\<open>double\<close> is
  Python's; it is the parameter \<open>fmt\<close>, applied to the precision and the number.
\<close>

definition length_child ::
  "(nat \<Rightarrow> real \<Rightarrow> string) \<Rightarrow> real \<Rightarrow> node \<Rightarrow> newick_generator \<Rightarrow> pyerror + newick_generator" where
  "length_child fmt t j s =
     (case fmlookup (ng_time s) j of
        None \<Rightarrow> Inl KeyError
      | Some tj \<Rightarrow>
          Inr (s\<lparr>ng_branch_length :=
                   fmupd j (fmt (ng_precision s) (t - tj)) (ng_branch_length s)\<rparr>))"

definition length_record ::
  "(nat \<Rightarrow> real \<Rightarrow> string) \<Rightarrow> edge \<Rightarrow> newick_generator \<Rightarrow> pyerror + newick_generator" where
  "length_record fmt e s =
     (case e of ((c0, c1), parent, t) \<Rightarrow>
        (case length_child fmt t c0 s of Inl err \<Rightarrow> Inl err | Inr s' \<Rightarrow> length_child fmt t c1 s'))"

text \<open>
  The loop that finds the root (lines 506-508); it does not return when the
  parent links from node 1 run into a cycle.
\<close>

partial_function (option) find_root :: "(node, node) fmap \<Rightarrow> node \<Rightarrow> node option" where
  "find_root parent r =
     (case fmlookup parent r of None \<Rightarrow> Some r | Some q \<Rightarrow> find_root parent q)"

declare find_root.simps [code]

text \<open>\<^verbatim>\<open>str(node)\<close>: the decimal digits of a node identifier.\<close>

definition digit_char :: "nat \<Rightarrow> char" where
  "digit_char d = ''0123456789'' ! d"

function str_nat :: "nat \<Rightarrow> string" where
  "str_nat n = (if n < 10 then [digit_char n] else str_nat (n div 10) @ [digit_char (n mod 10)])"
  by pat_completeness auto
termination
  by (relation "measure id") auto

declare str_nat.simps [simp del]

text \<open>
  \<^verbatim>\<open>_update_subtrees\<close> (lines 527-575). The first loop collects the nodes without
  a cached string, from the root down; the stack is a list whose head is its top,
  and \<^verbatim>\<open>nodes\<close> has room for \<open>cap\<close> = \<^verbatim>\<open>2 * sample_size\<close> entries, a write past
  it being an IndexError.
\<close>

function collect_nodes ::
  "nat \<Rightarrow> (node, node \<times> node) fmap \<Rightarrow> (node, string) fmap \<Rightarrow> node list \<Rightarrow> node list \<Rightarrow>
   pyerror + node list" where
  "collect_nodes cap children subtree [] nodes = Inr nodes"
| "collect_nodes cap children subtree (v # stack) nodes =
     (if fmlookup subtree v \<noteq> None then collect_nodes cap children subtree stack nodes
      else if cap \<le> length nodes then Inl IndexError
      else collect_nodes cap children subtree
             ((case fmlookup children v of None \<Rightarrow> [] | Some (c0, c1) \<Rightarrow> [c1, c0]) @ stack)
             (nodes @ [v]))"
  by pat_completeness auto
termination
  by (relation "measures [\<lambda>(cap, children, subtree, stack, nodes). cap - length nodes,
                          \<lambda>(cap, children, subtree, stack, nodes). length stack]") auto

declare collect_nodes.simps [simp del]

text \<open>The string of one node, from the cached strings of its children (lines 545-574).\<close>

definition node_string ::
  "(node, node \<times> node) fmap \<Rightarrow> (node, string) fmap \<Rightarrow> node \<Rightarrow> (node, string) fmap \<Rightarrow> node \<Rightarrow>
   pyerror + string" where
  "node_string children branch_length rt subtree v =
     (case fmlookup children v of
        Some (c0, c1) \<Rightarrow>
          (case fmlookup subtree c0 of None \<Rightarrow> Inl KeyError | Some s1 \<Rightarrow>
           case fmlookup subtree c1 of None \<Rightarrow> Inl KeyError | Some s2 \<Rightarrow>
             if v \<noteq> rt then
               (case fmlookup branch_length v of
                  None \<Rightarrow> Inl KeyError
                | Some b \<Rightarrow> Inr (''('' @ s1 @ '','' @ s2 @ '')'' @ '':'' @ b))
             else Inr (''('' @ s1 @ '','' @ s2 @ '')'' @ '';''))
      | None \<Rightarrow>
          (case fmlookup branch_length v of
             None \<Rightarrow> Inl KeyError
           | Some b \<Rightarrow> Inr (str_nat v @ '':'' @ b)))"

definition build_node :: "node \<Rightarrow> newick_generator \<Rightarrow> pyerror + newick_generator" where
  "build_node v s =
     (case node_string (ng_children s) (ng_branch_length s) (ng_root s) (ng_subtree s) v of
        Inl e \<Rightarrow> Inl e
      | Inr str \<Rightarrow> Inr (s\<lparr>ng_subtree := fmupd v str (ng_subtree s)\<rparr>))"

definition update_subtrees :: "newick_generator \<Rightarrow> pyerror + newick_generator" where
  "update_subtrees s =
     (case collect_nodes (2 * ng_sample_size s) (ng_children s) (ng_subtree s) [ng_root s] [] of
        Inl e \<Rightarrow> Inl e
      | Inr nodes \<Rightarrow> fold_err build_node (rev nodes) s)"

text \<open>The three assertions of \<^verbatim>\<open>next\<close> (lines 509-511).\<close>

definition fully_coalesced_state :: "newick_generator \<Rightarrow> bool" where
  "fully_coalesced_state s =
     (int (fcard (fmdom (ng_time s))) = 2 * int (ng_sample_size s) - 1 \<and>
      int (fcard (fmdom (ng_parent s))) = 2 * int (ng_sample_size s) - 2 \<and>
      int (fcard (fmdom (ng_branch_length s))) = 2 * int (ng_sample_size s) - 2)"

text \<open>
  \<^verbatim>\<open>next\<close> (lines 485-514) for the tuple \<open>d\<close> that the diff iterator hands over.
  \<open>apply_records\<close> is the part up to the root (lines 486-508); the result of
  \<^verbatim>\<open>next\<close> is the new state of the generator and the pair it returns.
\<close>

definition apply_records ::
  "(nat \<Rightarrow> real \<Rightarrow> string) \<Rightarrow> newick_generator \<Rightarrow> diff \<Rightarrow> newick_generator res" where
  "apply_records fmt s d =
     (case d of (len, records_out, records_in) \<Rightarrow>
        (case fold_err out_record records_out s of
           Inl e \<Rightarrow> Some (Inl e)
         | Inr s1 \<Rightarrow>
             (case fold_err (length_record fmt) records_in (fold in_record records_in s1) of
                Inl e \<Rightarrow> Some (Inl e)
              | Inr s3 \<Rightarrow>
                  (case find_root (ng_parent s3) 1 of
                     None \<Rightarrow> None
                   | Some r \<Rightarrow> Some (Inr (s3\<lparr>ng_root := r\<rparr>))))))"

definition NewickGenerator_next ::
  "(nat \<Rightarrow> real \<Rightarrow> string) \<Rightarrow> newick_generator \<Rightarrow> diff \<Rightarrow> (newick_generator \<times> int \<times> string) res" where
  "NewickGenerator_next fmt s d =
     bind_res (apply_records fmt s d) (\<lambda>s4.
       if \<not> fully_coalesced_state s4 then Some (Inl AssertionError)
       else
         (case update_subtrees s4 of
            Inl e \<Rightarrow> Some (Inl e)
          | Inr s5 \<Rightarrow>
              (case fmlookup (ng_subtree s5) (ng_root s5) of
                 None \<Rightarrow> Some (Inl KeyError)
               | Some str \<Rightarrow> Some (Inr (s5, fst d, str)))))"

text \<open>The Newick stream over a list of diffs, and \<^verbatim>\<open>newick_trees\<close> (lines 460-461).\<close>

fun newick_run ::
  "(nat \<Rightarrow> real \<Rightarrow> string) \<Rightarrow> newick_generator \<Rightarrow> diff list \<Rightarrow> (int \<times> string) list \<times> status" where
  "newick_run fmt s [] = ([], Exhausted)"
| "newick_run fmt s (d # ds) =
     (case NewickGenerator_next fmt s d of
        None \<Rightarrow> ([], Hangs)
      | Some (Inl e) \<Rightarrow> ([], Raised e)
      | Some (Inr (s', y)) \<Rightarrow> (case newick_run fmt s' ds of (ys, st) \<Rightarrow> (y # ys, st)))"

definition newick_trees ::
  "(nat \<Rightarrow> real \<Rightarrow> string) \<Rightarrow> tree_sequence \<Rightarrow> nat \<Rightarrow> bool \<Rightarrow> (int \<times> string) list \<times> status" where
  "newick_trees fmt ts precision all_breaks =
     (case diffs ts all_breaks of
        (ds, st) \<Rightarrow>
          (case newick_run fmt (NewickGenerator_init (ts_sample_size ts) precision) ds of
             (ys, Exhausted) \<Rightarrow> (ys, st)
           | (ys, st') \<Rightarrow> (ys, st')))"



text \<open>A format for the examples: three decimals of the small integers.\<close>

definition fmt3 :: "nat \<Rightarrow> real \<Rightarrow> string" where
  "fmt3 p x =
     (if x = 1 then ''1.000'' else if x = 2 then ''2.000'' else if x = 3 then ''3.000''
      else ''?'')"

subsection \<open>The haplotype generator\<close>

text \<open>
  What \<^verbatim>\<open>HaplotypeGenerator\<close> takes from \<^verbatim>\<open>random\<close> and \<^verbatim>\<open>numpy.random\<close>:
  \<open>randint\<close> is the number that \<^verbatim>\<open>random.randint(0, 2**31)\<close> returns;
  \<open>RandomState\<close> makes a generator from a seed, or from the entropy of the system
  when the seed is \<^verbatim>\<open>None\<close>; \<open>poisson\<close> and \<open>choice\<close> draw from a generator and
  return its next state (\<open>choice\<close> may refuse its arguments).
\<close>

record 'g random_lib =
  randint :: int
  RandomState :: "int option \<Rightarrow> 'g"
  poisson :: "'g \<Rightarrow> real \<Rightarrow> nat \<times> 'g"
  choice :: "'g \<Rightarrow> node list \<Rightarrow> nat \<Rightarrow> real list \<Rightarrow> pyerror + node list \<times> 'g"

text \<open>
  The attributes of a \<^verbatim>\<open>HaplotypeGenerator\<close> (lines 584-601). \<^verbatim>\<open>_branch_length\<close>
  is iterated over (line 629), so it keeps the order of insertion: it is an
  association list. The matrix \<^verbatim>\<open>_haplotype\<close> is the list of its rows.
\<close>

record 'g haplotype_generator =
  hg_random_seed :: int
  hg_rng :: 'g
  hg_num_loci :: int
  hg_sample_size :: nat
  hg_scaled_mutation_rate :: real
  hg_num_segregating_sites :: nat
  hg_max_segregating_sites :: nat
  hg_total_branch_length :: real
  hg_branch_length :: "(node \<times> real) list"
  hg_children :: "(node, node \<times> node) fmap"
  hg_time :: "(node, real) fmap"
  hg_haplotype :: "char list list"

text \<open>A matrix of the given shape filled with \<^verbatim>\<open>b"0"\<close>.\<close>

definition zero_matrix :: "nat \<Rightarrow> nat \<Rightarrow> char list list" where
  "zero_matrix rows cols = replicate rows (replicate cols (CHR ''0''))"

text \<open>
  \<^verbatim>\<open>self._haplotype[u - 1, column] = b"1"\<close> (line 669). For \<^verbatim>\<open>u = 0\<close> the row
  index is \<^verbatim>\<open>-1\<close>, the last row.
\<close>

definition set_cell :: "nat \<Rightarrow> nat \<Rightarrow> char list list \<Rightarrow> pyerror + char list list" where
  "set_cell u col hap =
     (let row = (if u = 0 then length hap - 1 else u - 1) in
      if hap = [] \<or> length hap \<le> row \<or> length (hap ! row) \<le> col then Inl IndexError
      else Inr (hap[row := (hap ! row)[col := CHR ''1'']]))"

text \<open>
  The inner loop of \<^verbatim>\<open>_apply_rare_mutations\<close> (lines 665-671): the stack is a list
  whose head is its top. The loop does not end when the children below the node
  run into a cycle.
\<close>

partial_function (option) mutate_below ::
  "(node, node \<times> node) fmap \<Rightarrow> nat \<Rightarrow> nat \<Rightarrow> node list \<Rightarrow> char list list \<Rightarrow>
   (pyerror + char list list) option" where
  "mutate_below children sample_size col stack hap =
     (case stack of
        [] \<Rightarrow> Some (Inr hap)
      | u # st \<Rightarrow>
          if u \<le> sample_size then
            (case set_cell u col hap of
               Inl e \<Rightarrow> Some (Inl e)
             | Inr hap' \<Rightarrow> mutate_below children sample_size col st hap')
          else
            (case fmlookup children u of
               None \<Rightarrow> Some (Inl KeyError)
             | Some (c0, c1) \<Rightarrow> mutate_below children sample_size col (c1 # c0 # st) hap))"

declare mutate_below.simps [code]

text \<open>\<^verbatim>\<open>_apply_rare_mutations\<close> (lines 659-672).\<close>

fun apply_rare_mutations ::
  "node list \<Rightarrow> 'g haplotype_generator \<Rightarrow> ('g haplotype_generator) res" where
  "apply_rare_mutations [] hg = Some (Inr hg)"
| "apply_rare_mutations (v # branches) hg =
     (case mutate_below (hg_children hg) (hg_sample_size hg) (hg_num_segregating_sites hg) [v]
             (hg_haplotype hg) of
        None \<Rightarrow> None
      | Some (Inl e) \<Rightarrow> Some (Inl e)
      | Some (Inr hap) \<Rightarrow>
          apply_rare_mutations branches
            (hg\<lparr>hg_haplotype := hap,
                hg_num_segregating_sites := Suc (hg_num_segregating_sites hg)\<rparr>))"

text \<open>
  \<^verbatim>\<open>_apply_mutations\<close> (lines 636-656): grow the matrix when the new sites do not
  fit, keeping the old columns, then apply the mutations.
\<close>

definition grow_matrix :: "nat \<Rightarrow> nat \<Rightarrow> nat \<Rightarrow> char list list \<Rightarrow> char list list" where
  "grow_matrix rows k cols old =
     map (\<lambda>i. take k (old ! i) @ replicate (cols - k) (CHR ''0'')) [0..<rows]"

definition apply_mutations ::
  "node list \<Rightarrow> 'g haplotype_generator \<Rightarrow> ('g haplotype_generator) res" where
  "apply_mutations branches hg =
     (let new_s = hg_num_segregating_sites hg + length branches in
      apply_rare_mutations branches
        (if hg_max_segregating_sites hg \<le> new_s then
           (let k = hg_max_segregating_sites hg;
                cols = max (2 * k) (new_s + 1)
            in hg\<lparr>hg_max_segregating_sites := cols,
                  hg_haplotype := grow_matrix (hg_sample_size hg) k cols (hg_haplotype hg)\<rparr>)
         else hg))"

text \<open>The loops over \<^verbatim>\<open>records_out\<close> and \<^verbatim>\<open>records_in\<close> (lines 608-621).\<close>

definition del_fm :: "('k, 'v) fmap \<Rightarrow> 'k \<Rightarrow> pyerror + ('k, 'v) fmap" where
  "del_fm d k = (if fmlookup d k = None then Inl KeyError else Inr (fmdrop k d))"

definition hg_out_child :: "node \<Rightarrow> 'g haplotype_generator \<Rightarrow> pyerror + 'g haplotype_generator" where
  "hg_out_child j hg =
     (case map_of (hg_branch_length hg) j of
        None \<Rightarrow> Inl KeyError
      | Some bl \<Rightarrow>
          Inr (hg\<lparr>hg_total_branch_length := hg_total_branch_length hg - bl,
                   hg_branch_length := AList.delete j (hg_branch_length hg)\<rparr>))"

definition hg_out_record :: "edge \<Rightarrow> 'g haplotype_generator \<Rightarrow> pyerror + 'g haplotype_generator" where
  "hg_out_record e hg =
     (case e of ((c0, c1), parent, t) \<Rightarrow>
        case del_fm (hg_children hg) parent of Inl err \<Rightarrow> Inl err | Inr ch \<Rightarrow>
        case del_fm (hg_time hg) parent of Inl err \<Rightarrow> Inl err | Inr tm \<Rightarrow>
        case hg_out_child c0 (hg\<lparr>hg_children := ch, hg_time := tm\<rparr>) of
          Inl err \<Rightarrow> Inl err
        | Inr hg' \<Rightarrow> hg_out_child c1 hg')"

definition hg_in_record :: "edge \<Rightarrow> 'g haplotype_generator \<Rightarrow> 'g haplotype_generator" where
  "hg_in_record e hg =
     (case e of ((c0, c1), parent, t) \<Rightarrow>
        hg\<lparr>hg_children := fmupd parent (c0, c1) (hg_children hg),
           hg_time := fmupd parent t (hg_time hg)\<rparr>)"

definition hg_length_child ::
  "real \<Rightarrow> node \<Rightarrow> 'g haplotype_generator \<Rightarrow> pyerror + 'g haplotype_generator" where
  "hg_length_child t j hg =
     (case fmlookup (hg_time hg) j of
        None \<Rightarrow> Inl KeyError
      | Some tj \<Rightarrow>
          Inr (hg\<lparr>hg_branch_length := AList.update j (t - tj) (hg_branch_length hg),
                   hg_total_branch_length := hg_total_branch_length hg + (t - tj)\<rparr>))"

definition hg_length_record ::
  "edge \<Rightarrow> 'g haplotype_generator \<Rightarrow> pyerror + 'g haplotype_generator" where
  "hg_length_record e hg =
     (case e of ((c0, c1), parent, t) \<Rightarrow>
        case hg_length_child t c0 hg of Inl err \<Rightarrow> Inl err | Inr hg' \<Rightarrow> hg_length_child t c1 hg')"

text \<open>
  Filling \<^verbatim>\<open>branches\<close> and \<^verbatim>\<open>probabilities\<close> (lines 629-631); both arrays have
  \<^verbatim>\<open>2 * sample_size - 2\<close> entries and are created once, before the loop over the
  diffs. The division is that of the reals.
\<close>

fun fill_branches ::
  "(node \<times> real) list \<Rightarrow> real \<Rightarrow> nat \<Rightarrow> node list \<Rightarrow> real list \<Rightarrow> pyerror + node list \<times> real list" where
  "fill_branches [] total_length j branches probabilities = Inr (branches, probabilities)"
| "fill_branches ((v, bl) # items) total_length j branches probabilities =
     (if length branches \<le> j \<or> length probabilities \<le> j then Inl IndexError
      else fill_branches items total_length (Suc j) (branches[j := v]) (probabilities[j := bl / total_length]))"

text \<open>
  One round of the loop of \<^verbatim>\<open>_generate_haplotypes\<close> (lines 607-634). A mean that is
  negative, or the division by \<^verbatim>\<open>num_loci = 0\<close>, makes \<^verbatim>\<open>poisson\<close> raise a
  ValueError.
\<close>

definition generate_step ::
  "'g random_lib \<Rightarrow> diff \<Rightarrow> ('g haplotype_generator \<times> node list \<times> real list) \<Rightarrow>
   ('g haplotype_generator \<times> node list \<times> real list) res" where
  "generate_step lib d st =
     (case st of (hg, branches, probabilities) \<Rightarrow>
      case d of (len, records_out, records_in) \<Rightarrow>
      case fold_err hg_out_record records_out hg of Inl e \<Rightarrow> Some (Inl e) | Inr hg1 \<Rightarrow>
      case fold_err hg_length_record records_in (fold hg_in_record records_in hg1) of
        Inl e \<Rightarrow> Some (Inl e)
      | Inr hg2 \<Rightarrow>
          (let mu = hg_total_branch_length hg2 * hg_scaled_mutation_rate hg2 * real_of_int len
                      / real_of_int (hg_num_loci hg2)
           in if hg_num_loci hg2 = 0 \<or> mu < 0 then Some (Inl ValueError)
              else
                (case poisson lib (hg_rng hg2) mu of
                   (num_mutations, g) \<Rightarrow>
                     if 0 < num_mutations then
                       (case fill_branches (hg_branch_length hg2) (hg_total_branch_length hg2) 0
                               branches probabilities of
                          Inl e \<Rightarrow> Some (Inl e)
                        | Inr (branches', probabilities') \<Rightarrow>
                            (case choice lib g branches' num_mutations probabilities' of
                               Inl e \<Rightarrow> Some (Inl e)
                             | Inr (mutation_branches, g') \<Rightarrow>
                                 bind_res (apply_mutations mutation_branches (hg2\<lparr>hg_rng := g'\<rparr>))
                                   (\<lambda>hg3. Some (Inr (hg3, branches', probabilities')))))
                     else Some (Inr (hg2\<lparr>hg_rng := g\<rparr>, branches, probabilities)))))"

fun generate_loop ::
  "'g random_lib \<Rightarrow> diff list \<Rightarrow> ('g haplotype_generator \<times> node list \<times> real list) \<Rightarrow>
   ('g haplotype_generator \<times> node list \<times> real list) res" where
  "generate_loop lib [] st = Some (Inr st)"
| "generate_loop lib (d # ds) st = bind_res (generate_step lib d st) (generate_loop lib ds)"

text \<open>
  \<^verbatim>\<open>_generate_haplotypes\<close> (lines 604-634): an error of the diff iterator comes
  after the tuples it has yielded.
\<close>

definition generate_haplotypes ::
  "'g random_lib \<Rightarrow> tree_sequence \<Rightarrow> 'g haplotype_generator \<Rightarrow> ('g haplotype_generator) res" where
  "generate_haplotypes lib ts hg =
     (if hg_sample_size hg = 0 then Some (Inl ValueError)
      else
        (case diffs ts False of
           (ds, st) \<Rightarrow>
             bind_res
               (generate_loop lib ds
                  (hg, replicate (2 * hg_sample_size hg - 2) 0,
                   replicate (2 * hg_sample_size hg - 2) 0))
               (\<lambda>(hg', branches, probabilities).
                  case st of Raised e \<Rightarrow> Some (Inl e) | _ \<Rightarrow> Some (Inr hg'))))"

text \<open>
  \<^verbatim>\<open>HaplotypeGenerator.__init__\<close> (lines 583-602): the attributes it sets
  (lines 584-601), then \<^verbatim>\<open>_generate_haplotypes\<close>. The seed that is recorded is the
  one given or else the fresh draw; the generator is made from the argument
  \<^verbatim>\<open>random_seed\<close> itself (line 587).
\<close>

definition HaplotypeGenerator_attrs ::
  "'g random_lib \<Rightarrow> tree_sequence \<Rightarrow> real \<Rightarrow> int option \<Rightarrow> 'g haplotype_generator" where
  "HaplotypeGenerator_attrs lib ts scaled_mutation_rate random_seed =
     \<lparr>hg_random_seed = (case random_seed of None \<Rightarrow> randint lib | Some seed \<Rightarrow> seed),
      hg_rng = RandomState lib random_seed,
      hg_num_loci = ts_num_loci ts,
      hg_sample_size = ts_sample_size ts,
      hg_scaled_mutation_rate = scaled_mutation_rate,
      hg_num_segregating_sites = 0,
      hg_max_segregating_sites = nat (ts_num_loci ts),
      hg_total_branch_length = 0,
      hg_branch_length = [],
      hg_children = fmempty,
      hg_time = fmap_of_list (map (\<lambda>j. (j, 0)) [1..<Suc (ts_sample_size ts)]),
      hg_haplotype = zero_matrix (ts_sample_size ts) (nat (ts_num_loci ts))\<rparr>"

definition HaplotypeGenerator_init ::
  "'g random_lib \<Rightarrow> tree_sequence \<Rightarrow> real \<Rightarrow> int option \<Rightarrow> ('g haplotype_generator) res" where
  "HaplotypeGenerator_init lib ts scaled_mutation_rate random_seed =
     (if ts_num_loci ts < 0 then Some (Inl ValueError)
      else generate_haplotypes lib ts
             (HaplotypeGenerator_attrs lib ts scaled_mutation_rate random_seed))"

text \<open>\<^verbatim>\<open>get_num_segregating_sites\<close>, \<^verbatim>\<open>haplotypes\<close> and \<^verbatim>\<open>haplotype_strings\<close> (lines 674-684).\<close>

definition get_num_segregating_sites :: "'g haplotype_generator \<Rightarrow> nat" where
  "get_num_segregating_sites hg = hg_num_segregating_sites hg"

definition haplotypes :: "'g haplotype_generator \<Rightarrow> char list list" where
  "haplotypes hg = map (take (hg_num_segregating_sites hg)) (hg_haplotype hg)"

definition haplotype_strings :: "'g haplotype_generator \<Rightarrow> string list" where
  "haplotype_strings hg = haplotypes hg"

text \<open>
  A library for the examples: \<open>poisson\<close> draws 0 for the mean 0 and 1 otherwise,
  \<open>choice\<close> takes the first branches, and a generator is the seed it was made
  from.
\<close>

definition lib_ex :: "(int option) random_lib" where
  "lib_ex = \<lparr>randint = 7, RandomState = (\<lambda>seed. seed),
     poisson = (\<lambda>g mu. (if mu = 0 then 0 else 1, g)),
     choice = (\<lambda>g branches k p. Inr (take k branches, g))\<rparr>"

subsection \<open>The sample leaves below a node\<close>

text \<open>
  \<open>leaves_below children n v ls\<close>: the subtree rooted at \<open>v\<close> is a finite binary
  tree whose inner nodes are above \<open>n\<close> and have their children in \<open>children\<close>, and
  whose leaves, the samples \<open>1..n\<close>, are \<open>ls\<close> from left to right.
\<close>

inductive leaves_below :: "(node, node \<times> node) fmap \<Rightarrow> nat \<Rightarrow> node \<Rightarrow> node list \<Rightarrow> bool"
  for children :: "(node, node \<times> node) fmap" and n :: nat where
  leaf: "1 \<le> u \<Longrightarrow> u \<le> n \<Longrightarrow> leaves_below children n u [u]"
| inner: "n < u \<Longrightarrow> fmlookup children u = Some (c0, c1) \<Longrightarrow> leaves_below children n c0 as \<Longrightarrow>
          leaves_below children n c1 bs \<Longrightarrow> leaves_below children n u (as @ bs)"

code_pred leaves_below .

text \<open>The matrix with \<^verbatim>\<open>'1'\<close> written in a column at the rows of a set of samples.\<close>

definition mark_column :: "node set \<Rightarrow> nat \<Rightarrow> char list list \<Rightarrow> char list list" where
  "mark_column L col hap =
     map (\<lambda>r. if Suc r \<in> L then (hap ! r)[col := CHR ''1''] else hap ! r) [0..<length hap]"

text \<open>The state of a generator for the first tree of \<open>ts_ex\<close>, before any mutation.\<close>

definition hg_ex :: "(int option) haplotype_generator" where
  "hg_ex = \<lparr>hg_random_seed = 7, hg_rng = None, hg_num_loci = 10, hg_sample_size = 3,
     hg_scaled_mutation_rate = 1, hg_num_segregating_sites = 0, hg_max_segregating_sites = 10,
     hg_total_branch_length = 5, hg_branch_length = [(1, 1), (2, 1), (3, 2), (4, 1)],
     hg_children = fmap_of_list [(4, (1, 2)), (5, (3, 4))],
     hg_time = fmap_of_list [(1, 0), (2, 0), (3, 0), (4, 1), (5, 2)],
     hg_haplotype = zero_matrix 3 10\<rparr>"

definition hg_small :: "(int option) haplotype_generator" where
  "hg_small = hg_ex\<lparr>hg_max_segregating_sites := 1, hg_haplotype := zero_matrix 3 1\<rparr>"

subsection \<open>Valid diff streams and the strings of the naive builder\<close>

text \<open>
  The tree of an interval is the dictionary of the children of its inner nodes.
  A diff is valid for a tree when every outgoing record is a record of the tree,
  every incoming record hangs two different nodes that have no parent under a node
  above the samples that has no record, and in the tree that results every child
  is a sample or has a record of its own. A diff stream is valid when each diff is
  valid for the tree that the diffs before it have built from the empty tree.
\<close>

type_synonym tree = "(node, node \<times> node) fmap"

definition free_node :: "tree \<Rightarrow> node \<Rightarrow> bool" where
  "free_node T a = fmpred (\<lambda>p (c0, c1). a \<noteq> c0 \<and> a \<noteq> c1) T"

fun remove_records :: "edge list \<Rightarrow> tree \<Rightarrow> tree option" where
  "remove_records [] T = Some T"
| "remove_records (((c0, c1), p, t) # rs) T =
     (if fmlookup T p = Some (c0, c1) then remove_records rs (fmdrop p T) else None)"

fun insert_records :: "nat \<Rightarrow> edge list \<Rightarrow> tree \<Rightarrow> tree option" where
  "insert_records n [] T = Some T"
| "insert_records n (((c0, c1), p, t) # rs) T =
     (if n < p \<and> fmlookup T p = None \<and> c0 \<noteq> c1 \<and> free_node T c0 \<and> free_node T c1
      then insert_records n rs (fmupd p (c0, c1) T) else None)"

definition complete_tree :: "nat \<Rightarrow> tree \<Rightarrow> bool" where
  "complete_tree n T =
     fmpred (\<lambda>p (c0, c1). (1 \<le> c0 \<and> c0 \<le> n \<or> fmlookup T c0 \<noteq> None) \<and>
                          (1 \<le> c1 \<and> c1 \<le> n \<or> fmlookup T c1 \<noteq> None)) T"

fun valid_diffs :: "nat \<Rightarrow> tree \<Rightarrow> diff list \<Rightarrow> bool" where
  "valid_diffs n T [] = True"
| "valid_diffs n T ((len, records_out, records_in) # ds) =
     (case remove_records records_out T of
        None \<Rightarrow> False
      | Some T1 \<Rightarrow>
          (case insert_records n records_in T1 of
             None \<Rightarrow> False
           | Some T2 \<Rightarrow> complete_tree n T2 \<and> valid_diffs n T2 ds))"



definition ds_ex :: "diff list" where
  "ds_ex = [(4, [], [((1, 2), 4, 1), ((3, 4), 5, 2)]),
            (6, [((3, 4), 5, 2)], [((3, 4), 6, 3)])]"

text \<open>
  What holds between the state \<open>s0\<close> of the last yield and a state \<open>s\<close> in the
  middle of \<^verbatim>\<open>next\<close>: every cached string was cached at the last yield; a node
  without a cached string has no cached string above it in the tree of the last
  yield; and a node with a cached string has kept its parent, its branch length
  and (\<open>cache_children\<close>) its children.
\<close>

definition cache_core :: "newick_generator \<Rightarrow> newick_generator \<Rightarrow> bool" where
  "cache_core s0 s =
     ((\<forall>k x. fmlookup (ng_subtree s) k = Some x \<longrightarrow> fmlookup (ng_subtree s0) k = Some x) \<and>
      (\<forall>a p. fmlookup (ng_parent s0) a = Some p \<and> fmlookup (ng_subtree s) a = None \<longrightarrow>
          fmlookup (ng_subtree s) p = None) \<and>
      (\<forall>k. fmlookup (ng_subtree s) k \<noteq> None \<longrightarrow>
          fmlookup (ng_parent s) k = fmlookup (ng_parent s0) k \<and>
          fmlookup (ng_branch_length s) k = fmlookup (ng_branch_length s0) k))"


definition child_of :: "tree \<Rightarrow> node \<Rightarrow> node \<Rightarrow> bool" where
  "child_of T a p = (\<exists>c0 c1. fmlookup T p = Some (c0, c1) \<and> (a = c0 \<or> a = c1))"


text \<open>
  A tree: the inner nodes are above the samples and have two different
  children, and no node is the child of two nodes.
\<close>

definition tree_ok :: "nat \<Rightarrow> tree \<Rightarrow> bool" where
  "tree_ok n T =
     ((\<forall>p c0 c1. fmlookup T p = Some (c0, c1) \<longrightarrow> n < p \<and> c0 \<noteq> c1) \<and>
      (\<forall>j p q. child_of T j p \<and> child_of T j q \<longrightarrow> p = q))"

text \<open>
  The dictionaries of a \<^verbatim>\<open>HaplotypeGenerator\<close> for a tree: \<^verbatim>\<open>_children\<close> is the
  tree, \<^verbatim>\<open>_time\<close> has an entry for the samples and the inner nodes, and
  \<^verbatim>\<open>_branch_length\<close> one for every node that is a child.
\<close>

definition hg_matches :: "'g haplotype_generator \<Rightarrow> tree \<Rightarrow> bool" where
  "hg_matches hg T =
     (hg_children hg = T \<and>
      (\<forall>j. fmlookup (hg_time hg) j \<noteq> None \<longleftrightarrow>
           (1 \<le> j \<and> j \<le> hg_sample_size hg) \<or> fmlookup T j \<noteq> None) \<and>
      (\<forall>j. map_of (hg_branch_length hg) j \<noteq> None \<longleftrightarrow> (\<exists>p. child_of T j p)))"

text \<open>
  The diffs of a tree sequence build trees over its samples: there is a sample,
  and the stream of \<^verbatim>\<open>_diffs\<close> is a valid diff stream from the empty tree, so that
  at every interval the records in force form binary trees whose leaves are
  samples.
\<close>

definition trees_over_samples :: "tree_sequence \<Rightarrow> bool" where
  "trees_over_samples ts =
     (0 < ts_sample_size ts \<and>
      valid_diffs (ts_sample_size ts) fmempty (fst (diffs_plain ts)))"


section \<open>Properties\<close>

subsection \<open>Differences of uint32 values\<close>

lemma sub32_id: "b \<le> a \<Longrightarrow> 0 \<le> b \<Longrightarrow> a < 2 ^ 32 \<Longrightarrow> sub32 a b = a - b"
  by (simp add: sub32_def uint32_def)

lemma uint32_id: "0 \<le> x \<Longrightarrow> x < 2 ^ 32 \<Longrightarrow> uint32 x = x"
  by (simp add: uint32_def)

subsection \<open>The eviction loop of the sparse-tree generator\<close>

lemma fst_mono_seg: "(a::segment) \<le> b \<Longrightarrow> fst a \<le> fst b"
  by (cases a; cases b) (auto simp: less_eq_prod_def)

lemma evict_error: "evict l h pim taum = Inl e \<Longrightarrow> \<exists>s\<in>set h. l < fst s \<Longrightarrow> e = KeyError"
  by (induction l h pim taum rule: evict.induct)
     (auto simp: del_item_def split: if_splits sum.splits)

lemma evict_result:
  "evict l h pim taum = Inr (h', pim', taum') \<Longrightarrow> sorted h \<Longrightarrow>
     h' \<noteq> [] \<and> (\<forall>s\<in>set h'. l < fst s) \<and> sorted h'"
proof (induction l h pim taum rule: evict.induct)
  case (1 l pim taum)
  then show ?case by simp
next
  case (2 l x c0 c1 p h pim taum)
  show ?case
  proof (cases "x \<le> l")
    case True
    with 2 show ?thesis
      by (auto simp: del_item_def split: if_splits sum.splits)
  next
    case False
    with "2.prems" have h': "h' = (x, (c0, c1), p) # h" by simp
    have "l < fst s" if "s \<in> set h" for s
    proof -
      from "2.prems"(2) that have "(x, (c0, c1), p) \<le> s" by auto
      from fst_mono_seg[OF this] False show ?thesis by simp
    qed
    with False "2.prems"(2) show ?thesis by (auto simp: h')
  qed
qed

lemma sorted_heappush: "sorted h \<Longrightarrow> sorted (heappush h x)"
  by (simp add: heappush_def sorted_insort)

lemma set_heappush: "set (heappush h x) = insert x (set h)"
  by (simp add: heappush_def set_insort_key)

lemma loop_no_IndexError:
  "\<forall>rc\<in>set rs. rec_left rc < rec_right rc \<Longrightarrow>
   snd (sparse_trees_loop m rs l last_l live pim taum) \<noteq> Raised IndexError"
proof (induction rs arbitrary: l last_l live pim taum)
  case Nil
  then show ?case by simp
next
  case (Cons rc rs)
  obtain l' r c0 c1 p t where rc: "rc = (l', r, (c0, c1), p, t)"
    by (cases rc) auto
  from Cons.prems have lr: "l' < r" by (simp add: rc rec_left_def rec_right_def)
  have ex: "\<exists>s\<in>set (heappush live (r, (c0, c1), p)). l' < fst s"
    using lr by (auto simp: set_heappush)
  show ?case
  proof (cases "evict l' (heappush live (r, (c0, c1), p)) pim taum")
    case (Inl e)
    with evict_error[OF Inl ex] show ?thesis by (simp add: rc Let_def)
  next
    case (Inr res)
    obtain live' pim' taum' where res: "res = (live', pim', taum')" by (cases res) auto
    have "snd (sparse_trees_loop m rs l' l' live' (pim'(c0 \<mapsto> p, c1 \<mapsto> p)) (taum'(p \<mapsto> t))) \<noteq> Raised IndexError"
      using Cons.IH Cons.prems by simp
    then show ?thesis using Inr res by (auto simp add: rc Let_def split: prod.splits)
  qed
qed

lemma records_ts_ex:
  "records ts_ex = [(0, 10, (1, 2), 4, 1), (0, 4, (3, 4), 5, 2), (4, 10, (3, 4), 6, 3)]"
  by (simp add: records_def ts_ex_def)

text \<open>
  Claim C10. In \<^verbatim>\<open>sparse_trees\<close>, when every record has \<^verbatim>\<open>left < right\<close>, the
  eviction loop never reads \<^verbatim>\<open>live_segments[0]\<close> on an empty heap: the run never
  ends with an IndexError. For each sweep: the record pushed before the sweep has
  \<^verbatim>\<open>right\<close> above the current \<^verbatim>\<open>left\<close>, so the sweep (a total function: it
  terminates) either stops on a KeyError of a \<^verbatim>\<open>del\<close> or leaves a non-empty heap
  in which every segment has \<^verbatim>\<open>right\<close> above the current \<^verbatim>\<open>left\<close>.
\<close>

theorem eviction_never_inspects_empty_heap:
  assumes "\<forall>rc\<in>set (records ts). rec_left rc < rec_right rc" and "l < r" and "sorted live"
  shows "snd (sparse_trees ts) \<noteq> Raised IndexError \<and>
         (case evict l (heappush live (r, c, p)) pim taum of
            Inl e \<Rightarrow> e = KeyError
          | Inr (live', pim', taum') \<Rightarrow>
              live' \<noteq> [] \<and> (\<forall>s\<in>set live'. l < fst s) \<and> sorted live')"
proof
  show "snd (sparse_trees ts) \<noteq> Raised IndexError"
    unfolding sparse_trees_def using assms(1) by (rule loop_no_IndexError)
next
  have ex: "\<exists>s\<in>set (heappush live (r, c, p)). l < fst s"
    using assms(2) by (auto simp: set_heappush)
  show "case evict l (heappush live (r, c, p)) pim taum of
            Inl e \<Rightarrow> e = KeyError
          | Inr (live', pim', taum') \<Rightarrow>
              live' \<noteq> [] \<and> (\<forall>s\<in>set live'. l < fst s) \<and> sorted live'"
  proof (cases "evict l (heappush live (r, c, p)) pim taum")
    case (Inl e)
    from evict_error[OF Inl ex] Inl show ?thesis by simp
  next
    case (Inr res)
    obtain live' pim' taum' where res: "res = (live', pim', taum')" by (cases res) auto
    from evict_result[OF Inr[unfolded res] sorted_heappush[OF assms(3)]] Inr res
    show ?thesis by simp
  qed
qed

theorem eviction_never_inspects_empty_heap_witness:
  "list_all (\<lambda>rc. rec_left rc < rec_right rc) (records ts_ex) \<and>
   snd (sparse_trees ts_ex) \<noteq> Raised IndexError \<and>
   evict 4 (heappush [(4, (3, 4), 5), (10, (1, 2), 4)] (10, (3, 4), 6))
     [1 \<mapsto> 4, 2 \<mapsto> 4, 3 \<mapsto> 5, 4 \<mapsto> 5] [4 \<mapsto> 1, 5 \<mapsto> 2] \<noteq> Inl IndexError"
proof -
  have h: "\<forall>rc\<in>set (records ts_ex). rec_left rc < rec_right rc"
    by (simp add: records_ts_ex rec_left_def rec_right_def)
  have s: "sorted [(4::int, (3::nat, 4::nat), 5::nat), (10, (1, 2), 4)]"
    by (simp add: less_eq_prod_def)
  have lr: "(4::int) < 10" by simp
  from eviction_never_inspects_empty_heap[OF h lr s, of "(3, 4)" 6
      "[1 \<mapsto> 4, 2 \<mapsto> 4, 3 \<mapsto> 5, 4 \<mapsto> 5]" "[4 \<mapsto> 1, 5 \<mapsto> 2]"] h
  show ?thesis
    by (auto simp: list_all_iff split: sum.splits)
qed

subsection \<open>The order of the records\<close>

lemma take_indices_ok:
  "set p \<subseteq> {..<length xs} \<Longrightarrow> take_indices xs p = Inr (map (\<lambda>i. xs ! i) p)"
  by (auto simp: take_indices_def list_all_iff)

lemma map_nth_zip:
  "set p \<subseteq> {..<length xs} \<Longrightarrow> length ys = length xs \<Longrightarrow>
   zip (map (\<lambda>i. xs ! i) p) (map (\<lambda>i. ys ! i) p) = map (\<lambda>i. zip xs ys ! i) p"
  by (induction p) auto

lemma uint32_array_id:
  "list_all (\<lambda>x. 0 \<le> x \<and> x < 2 ^ 32) xs \<Longrightarrow> uint32_array xs = Inr xs"
proof -
  assume a: "list_all (\<lambda>x. 0 \<le> x \<and> x < 2 ^ 32) xs"
  then have "list_all c_long xs" by (auto simp: list_all_iff c_long_def)
  moreover from a have "map uint32 xs = xs"
    by (induction xs) (simp_all add: uint32_id)
  ultimately show ?thesis by (simp add: uint32_array_def)
qed

lemma uint32_node_id:
  fixes p :: nat
  assumes "p < 2 ^ 32"
  shows "c_long (int p)" and "nat (uint32 (int p)) = p"
proof -
  from assms have "int p < 2 ^ 32" by (metis of_nat_less_iff of_nat_numeral of_nat_power)
  then show "c_long (int p)" "nat (uint32 (int p)) = p"
    by (simp_all add: uint32_id c_long_def)
qed

lemma uint32_nodes_id:
  "list_all (\<lambda>p. p < 2 ^ 32) ps \<Longrightarrow> uint32_nodes (map int ps) = Inr ps"
proof -
  assume a: "list_all (\<lambda>p. p < 2 ^ 32) ps"
  then have "list_all c_long (map int ps)"
    by (auto simp: list_all_iff uint32_node_id)
  moreover from a have "map (\<lambda>x. nat (uint32 x)) (map int ps) = ps"
    by (induction ps) (simp_all add: uint32_node_id)
  ultimately show ?thesis by (simp add: uint32_nodes_def)
qed

lemma uint32_pairs_id:
  "list_all (\<lambda>(a, b). a < 2 ^ 32 \<and> b < 2 ^ 32) cs \<Longrightarrow>
   uint32_pairs (map (\<lambda>(a, b). (int a, int b)) cs) = Inr cs"
proof -
  assume a: "list_all (\<lambda>(a, b). a < 2 ^ 32 \<and> b < 2 ^ 32) cs"
  then have "list_all (\<lambda>(a, b). c_long a \<and> c_long b) (map (\<lambda>(a, b). (int a, int b)) cs)"
    by (auto simp: list_all_iff uint32_node_id)
  moreover from a
  have "map (\<lambda>(a, b). (nat (uint32 a), nat (uint32 b))) (map (\<lambda>(a, b). (int a, int b)) cs) = cs"
    by (induction cs) (auto simp: uint32_node_id)
  ultimately show ?thesis by (simp add: uint32_pairs_def)
qed

text \<open>
  Claim C9, as amended. The constructor stores the breakpoints and the arrays
  \<^verbatim>\<open>left\<close>, \<^verbatim>\<open>right\<close>, \<^verbatim>\<open>children\<close> and \<^verbatim>\<open>parent\<close> as \<^verbatim>\<open>uint32\<close>, every integer
  modulo \<open>2 ^ 32\<close>, and keeps the order of its arrays unless \<^verbatim>\<open>sort_records\<close> is
  set; with \<^verbatim>\<open>sort_records\<close> set, and \<^verbatim>\<open>argsort\<close> returning a permutation of the
  indices that sorts the stored \<^verbatim>\<open>left\<close>, the five arrays are permuted alike and
  \<^verbatim>\<open>records\<close> is in ascending \<^verbatim>\<open>left\<close> order (the order among equal \<^verbatim>\<open>left\<close> is
  the one \<^verbatim>\<open>argsort\<close> gives). \<^verbatim>\<open>load\<close> returns the records of a dumped tree
  sequence in the order in which they were dumped.
\<close>

theorem record_order_as_constructed:
  assumes "uint32_arrays ts"
    and "list_all c_long b" and "list_all c_long left" and "list_all c_long right"
    and "list_all (\<lambda>(c0, c1). c_long c0 \<and> c_long c1) children" and "list_all c_long parent"
    and "set (argsort (map uint32 left)) = {..<length left}"
    and "sorted (map (\<lambda>i. map uint32 left ! i) (argsort (map uint32 left)))"
    and "length right = length left" and "length children = length left"
    and "length parent = length left" and "length time = length left"
  shows "load argsort (dump ts) = Inr ts \<and>
    (\<exists>ts'. TreeSequence_init argsort b left right children parent time n m False = Inr ts' \<and>
       records ts' =
         zip (map uint32 left) (zip (map uint32 right)
           (zip (map (\<lambda>(c0, c1). (nat (uint32 c0), nat (uint32 c1))) children)
             (zip (map (\<lambda>x. nat (uint32 x)) parent) time)))) \<and>
    (\<exists>ts'. TreeSequence_init argsort b left right children parent time n m True = Inr ts' \<and>
       sorted (map rec_left (records ts')) \<and>
       records ts' =
         map (\<lambda>i. zip (map uint32 left) (zip (map uint32 right)
                (zip (map (\<lambda>(c0, c1). (nat (uint32 c0), nat (uint32 c1))) children)
                  (zip (map (\<lambda>x. nat (uint32 x)) parent) time))) ! i)
           (argsort (map uint32 left)))"
proof (intro conjI)
  let ?L = "map uint32 left" and ?R = "map uint32 right"
  let ?C = "map (\<lambda>(c0, c1). (nat (uint32 c0), nat (uint32 c1))) children"
  let ?P = "map (\<lambda>x. nat (uint32 x)) parent"
  have conv: "uint32_array b = Inr (map uint32 b)" "uint32_array left = Inr ?L"
    "uint32_array right = Inr ?R" "uint32_pairs children = Inr ?C" "uint32_nodes parent = Inr ?P"
    using assms(2-6) by (simp_all add: uint32_array_def uint32_pairs_def uint32_nodes_def)
  from assms(1) show "load argsort (dump ts) = Inr ts"
    by (simp add: load_def dump_def TreeSequence_init_def uint32_arrays_def uint32_array_id
        uint32_nodes_id uint32_pairs_id)
  show "\<exists>ts'. TreeSequence_init argsort b left right children parent time n m False = Inr ts' \<and>
       records ts' = zip ?L (zip ?R (zip ?C (zip ?P time)))"
    by (simp add: TreeSequence_init_def conv records_def)
  let ?p = "argsort ?L"
  have len: "length ?R = length ?L" "length ?C = length ?L" "length ?P = length ?L"
    "length time = length ?L"
    using assms(9-12) by simp_all
  have sub: "set ?p \<subseteq> {..<length ?L}" using assms(7) by simp
  have z4: "zip (map (\<lambda>i. ?P ! i) ?p) (map (\<lambda>i. time ! i) ?p)
      = map (\<lambda>i. zip ?P time ! i) ?p"
    using sub len by (intro map_nth_zip) auto
  have z3: "zip (map (\<lambda>i. ?C ! i) ?p) (map (\<lambda>i. zip ?P time ! i) ?p)
      = map (\<lambda>i. zip ?C (zip ?P time) ! i) ?p"
    using sub len by (intro map_nth_zip) auto
  have z2: "zip (map (\<lambda>i. ?R ! i) ?p) (map (\<lambda>i. zip ?C (zip ?P time) ! i) ?p)
      = map (\<lambda>i. zip ?R (zip ?C (zip ?P time)) ! i) ?p"
    using sub len by (intro map_nth_zip) auto
  have z1: "zip (map (\<lambda>i. ?L ! i) ?p)
        (map (\<lambda>i. zip ?R (zip ?C (zip ?P time)) ! i) ?p)
      = map (\<lambda>i. zip ?L (zip ?R (zip ?C (zip ?P time))) ! i) ?p"
    using sub len by (intro map_nth_zip) auto
  have fst_nth: "map rec_left (map (\<lambda>i. zip ?L (zip ?R (zip ?C (zip ?P time))) ! i) ?p)
      = map (\<lambda>i. ?L ! i) ?p"
    using sub len by (auto simp: rec_left_def)
  have srt: "sorted (map rec_left
      (map (\<lambda>i. zip ?L (zip ?R (zip ?C (zip ?P time))) ! i) ?p))"
    unfolding fst_nth by (rule assms(8))
  have t1: "take_indices ?L ?p = Inr (map (\<lambda>i. ?L ! i) ?p)"
    using sub by (rule take_indices_ok)
  have t2: "take_indices ?R ?p = Inr (map (\<lambda>i. ?R ! i) ?p)"
    using sub len by (intro take_indices_ok) simp
  have t3: "take_indices ?C ?p = Inr (map (\<lambda>i. ?C ! i) ?p)"
    using sub len by (intro take_indices_ok) simp
  have t4: "take_indices ?P ?p = Inr (map (\<lambda>i. ?P ! i) ?p)"
    using sub len by (intro take_indices_ok) simp
  have t5: "take_indices time ?p = Inr (map (\<lambda>i. time ! i) ?p)"
    using sub len by (intro take_indices_ok) simp
  have "TreeSequence_init argsort b left right children parent time n m True =
      Inr \<lparr>ts_breakpoints = map uint32 b, ts_left = map (\<lambda>i. ?L ! i) ?p,
           ts_right = map (\<lambda>i. ?R ! i) ?p, ts_children = map (\<lambda>i. ?C ! i) ?p,
           ts_parent = map (\<lambda>i. ?P ! i) ?p, ts_time = map (\<lambda>i. time ! i) ?p,
           ts_sample_size = n, ts_num_loci = m\<rparr>"
    unfolding TreeSequence_init_def conv by (simp only: sum.case Let_def if_True t1 t2 t3 t4 t5)
  moreover have "records \<lparr>ts_breakpoints = map uint32 b, ts_left = map (\<lambda>i. ?L ! i) ?p,
           ts_right = map (\<lambda>i. ?R ! i) ?p, ts_children = map (\<lambda>i. ?C ! i) ?p,
           ts_parent = map (\<lambda>i. ?P ! i) ?p, ts_time = map (\<lambda>i. time ! i) ?p,
           ts_sample_size = n, ts_num_loci = m\<rparr> =
         map (\<lambda>i. zip ?L (zip ?R (zip ?C (zip ?P time))) ! i) ?p"
    unfolding records_def by (simp only: tree_sequence.simps z1 z2 z3 z4)
  ultimately show "\<exists>ts'. TreeSequence_init argsort b left right children parent time n m True = Inr ts' \<and>
       sorted (map rec_left (records ts')) \<and>
       records ts' = map (\<lambda>i. zip ?L (zip ?R (zip ?C (zip ?P time))) ! i) ?p"
    using srt by simp
qed

theorem record_order_as_constructed_witness:
  "(\<exists>ts'. TreeSequence_init (\<lambda>xs. [1, 2, 0]) [0, 4, 10] [4, 0, 4294967296] [10, 10, 4]
       [(3, 4), (1, 2), (3, 4)] [6, 4, 5] [3, 1, 2] 3 10 True = Inr ts' \<and>
     records ts' = [(0, 10, (1, 2), 4, 1), (0, 4, (3, 4), 5, 2), (4, 10, (3, 4), 6, 3)])"
proof -
  have u: "uint32_arrays ts_ex" by (simp add: uint32_arrays_def ts_ex_def)
  have c: "list_all c_long [0, 4, 10]" "list_all c_long [4, 0, 4294967296]"
    "list_all c_long [10, 10, 4]"
    "list_all (\<lambda>(c0, c1). c_long c0 \<and> c_long c1) [(3, 4), (1, 2), (3, 4)]"
    "list_all c_long [6, 4, 5]"
    by (simp_all add: c_long_def)
  have s: "set ((\<lambda>xs. [1, 2, 0::nat]) (map uint32 [4, 0, 4294967296])) =
      {..<length [4, 0, 4294967296::int]}" by auto
  have o: "sorted (map (\<lambda>i. map uint32 [4, 0, 4294967296] ! i)
      ((\<lambda>xs. [1, 2, 0::nat]) (map uint32 [4, 0, 4294967296])))"
    by (simp add: uint32_def)
  from record_order_as_constructed[of ts_ex "[0, 4, 10]" "[4, 0, 4294967296]" "[10, 10, 4]"
      "[(3, 4), (1, 2), (3, 4)]" "[6, 4, 5]" "\<lambda>xs. [1, 2, 0]" "[3, 1, 2]" 3 10, OF u c s o]
  show ?thesis by (auto simp: uint32_def)
qed

text \<open>
  Claim C9 as stated fails: a container with unsorted arrays loads without any
  sorting, and \<^verbatim>\<open>records\<close> then visits \<^verbatim>\<open>left\<close> 4 before \<^verbatim>\<open>left\<close> 0.
\<close>

theorem records_not_always_ascending:
  "\<forall>argsort. \<exists>ts. load argsort unsorted_container = Inr ts \<and>
     map rec_left (records ts) = [4, 0, 0] \<and> \<not> sorted (map rec_left (records ts))"
  by (simp add: load_def TreeSequence_init_def unsorted_container_def records_def rec_left_def
      uint32_array_def uint32_pairs_def uint32_nodes_def c_long_def uint32_def)

subsection \<open>The invariant of the sparse-tree generator\<close>

lemma seg_simps [simp]:
  "seg_c0 (x, (a, b), p) = a" "seg_c1 (x, (a, b), p) = b" "seg_parent (x, (a, b), p) = p"
  by (simp_all add: seg_c0_def seg_c1_def seg_parent_def)

lemma restrict_del1: "(m(p := None)) |` (- Y) = m |` (- insert p Y)"
  by (rule ext) (simp add: restrict_map_def)

lemma restrict_del2: "(m(a := None, b := None)) |` (- X) = m |` (- ({a, b} \<union> X))"
  by (rule ext) (simp add: restrict_map_def)

lemma evict_expired:
  assumes "sorted h" and "\<exists>s\<in>set h. l < fst s"
    and "distinct (map seg_parent (filter (\<lambda>s. fst s \<le> l) h))"
    and "\<forall>s\<in>set h. fst s \<le> l \<longrightarrow> seg_c0 s \<noteq> seg_c1 s \<and> pim (seg_c0 s) = Some (seg_parent s) \<and>
           pim (seg_c1 s) = Some (seg_parent s) \<and> seg_parent s \<in> dom taum"
  shows "evict l h pim taum =
     Inr (filter (\<lambda>s. l < fst s) h,
          pim |` (- (\<Union>s\<in>set (filter (\<lambda>s. fst s \<le> l) h). {seg_c0 s, seg_c1 s})),
          taum |` (- seg_parent ` set (filter (\<lambda>s. fst s \<le> l) h)))"
  using assms
proof (induction l h pim taum rule: evict.induct)
  case (1 l pim taum)
  then show ?case by simp
next
  case (2 l x c0 c1 p h pim taum)
  show ?case
  proof (cases "x \<le> l")
    case False
    have gt: "l < fst s" if "s \<in> set h" for s
    proof -
      from "2.prems"(1) that have "(x, (c0, c1), p) \<le> s" by auto
      from fst_mono_seg[OF this] False show ?thesis by simp
    qed
    have f1: "filter (\<lambda>s. l < fst s) h = h"
      by (rule filter_True) (simp add: gt)
    have f2: "filter (\<lambda>s. fst s \<le> l) h = []"
      unfolding filter_empty_conv using gt by (meson not_le)
    from False show ?thesis by (simp add: f1 f2)
  next
    case True
    let ?pim2 = "pim(c0 := None, c1 := None)"
    let ?taum1 = "taum(p := None)"
    from "2.prems"(4) True have hd: "c0 \<noteq> c1" "pim c0 = Some p" "pim c1 = Some p" "p \<in> dom taum"
      by auto
    have d1: "del_item pim c0 = Inr (pim(c0 := None))" using hd by (simp add: del_item_def)
    have d2: "del_item (pim(c0 := None)) c1 = Inr ?pim2" using hd by (simp add: del_item_def)
    have d3: "del_item taum p = Inr ?taum1" using hd by (auto simp: del_item_def)
    have ex: "\<exists>s\<in>set h. l < fst s" using "2.prems"(2) True by auto
    have dist: "distinct (map seg_parent (filter (\<lambda>s. fst s \<le> l) h))"
      and notp: "\<forall>s\<in>set h. fst s \<le> l \<longrightarrow> seg_parent s \<noteq> p"
      using "2.prems"(3) True by auto
    have rest: "\<forall>s\<in>set h. fst s \<le> l \<longrightarrow> seg_c0 s \<noteq> seg_c1 s \<and> ?pim2 (seg_c0 s) = Some (seg_parent s) \<and>
           ?pim2 (seg_c1 s) = Some (seg_parent s) \<and> seg_parent s \<in> dom ?taum1"
    proof (intro ballI impI)
      fix s assume s: "s \<in> set h" "fst s \<le> l"
      with "2.prems"(4) have a: "seg_c0 s \<noteq> seg_c1 s" "pim (seg_c0 s) = Some (seg_parent s)"
        "pim (seg_c1 s) = Some (seg_parent s)" "seg_parent s \<in> dom taum" by auto
      from notp s have np: "seg_parent s \<noteq> p" by auto
      from a np hd have "seg_c0 s \<noteq> c0" "seg_c0 s \<noteq> c1" "seg_c1 s \<noteq> c0" "seg_c1 s \<noteq> c1"
        by auto
      with a np show "seg_c0 s \<noteq> seg_c1 s \<and> ?pim2 (seg_c0 s) = Some (seg_parent s) \<and>
           ?pim2 (seg_c1 s) = Some (seg_parent s) \<and> seg_parent s \<in> dom ?taum1" by auto
    qed
    have srt: "sorted h" using "2.prems"(1) by simp
    have IH: "evict l h ?pim2 ?taum1 =
       Inr (filter (\<lambda>s. l < fst s) h,
          ?pim2 |` (- (\<Union>s\<in>set (filter (\<lambda>s. fst s \<le> l) h). {seg_c0 s, seg_c1 s})),
          ?taum1 |` (- seg_parent ` set (filter (\<lambda>s. fst s \<le> l) h)))"
      using "2.IH"[OF True d1 d2 d3 srt ex dist rest] .
    define X where "X = (\<Union>s\<in>set (filter (\<lambda>s. fst s \<le> l) h). {seg_c0 s, seg_c1 s})"
    define Y where "Y = seg_parent ` set (filter (\<lambda>s. fst s \<le> l) h)"
    have X': "(\<Union>s\<in>set (filter (\<lambda>s. fst s \<le> l) ((x, (c0, c1), p) # h)). {seg_c0 s, seg_c1 s})
        = {c0, c1} \<union> X"
      and Y': "seg_parent ` set (filter (\<lambda>s. fst s \<le> l) ((x, (c0, c1), p) # h)) = insert p Y"
      using True by (simp_all add: X_def Y_def)
    have e1: "?pim2 |` (- X) = pim |` (- ({c0, c1} \<union> X))"
      by (rule restrict_del2)
    have e2: "?taum1 |` (- Y) = taum |` (- insert p Y)"
      by (rule restrict_del1)
    have IH': "evict l h ?pim2 ?taum1 =
       Inr (filter (\<lambda>s. l < fst s) h, pim |` (- ({c0, c1} \<union> X)), taum |` (- insert p Y))"
      using IH unfolding X_def[symmetric] Y_def[symmetric] e1 e2 .
    have step: "evict l ((x, (c0, c1), p) # h) pim taum = evict l h ?pim2 ?taum1"
      using True by (simp add: d1 d2 d3)
    have fl: "filter (\<lambda>s. l < fst s) ((x, (c0, c1), p) # h) = filter (\<lambda>s. l < fst s) h"
      using True by simp
    show ?thesis by (simp only: step IH' X' Y' fl)
  qed
qed

lemma distinct_map_insort:
  "distinct (map f (insort_key g x xs)) \<longleftrightarrow> f x \<notin> f ` set xs \<and> distinct (map f xs)"
  by (induction xs) (auto simp: set_insort_key)

lemma st_inv_same_parent:
  assumes "st_inv n live pim taum" "s \<in> set live" "e \<in> set live"
    and "seg_parent s = seg_parent e"
  shows "s = e"
proof -
  from assms(1) have "inj_on seg_parent (set live)"
    by (simp add: st_inv_def distinct_map)
  with assms(2-4) show ?thesis by (auto dest: inj_onD)
qed

lemma st_inv_shared_child:
  assumes "st_inv n live pim taum" "s \<in> set live" "e \<in> set live"
    and "c \<in> {seg_c0 s, seg_c1 s}" "c \<in> {seg_c0 e, seg_c1 e}"
  shows "s = e"
proof -
  from assms(1,2,4) have "pim c = Some (seg_parent s)" by (auto simp: st_inv_def)
  moreover from assms(1,3,5) have "pim c = Some (seg_parent e)" by (auto simp: st_inv_def)
  ultimately have "seg_parent s = seg_parent e" by simp
  with assms(1-3) show ?thesis by (rule st_inv_same_parent)
qed

lemma st_step:
  assumes inv: "st_inv n live pim taum"
    and B: "l < r" "c0 \<noteq> c1" "n < p"
    and compat: "\<forall>s\<in>set live. l < fst s \<longrightarrow> seg_parent s \<noteq> p \<and> seg_c0 s \<noteq> c0 \<and>
        seg_c0 s \<noteq> c1 \<and> seg_c1 s \<noteq> c0 \<and> seg_c1 s \<noteq> c1"
  shows "\<exists>pim' taum'.
     evict l (heappush live (r, (c0, c1), p)) pim taum =
       Inr (heappush (filter (\<lambda>s. l < fst s) live) (r, (c0, c1), p), pim', taum') \<and>
     st_inv n (heappush (filter (\<lambda>s. l < fst s) live) (r, (c0, c1), p))
       (pim'(c0 \<mapsto> p, c1 \<mapsto> p)) (taum'(p \<mapsto> t))"
proof -
  let ?B = "(r, (c0, c1), p)"
  let ?h = "heappush live ?B"
  define E where "E = filter (\<lambda>s. fst s \<le> l) live"
  define K where "K = filter (\<lambda>s. l < fst s) live"
  define X where "X = (\<Union>s\<in>set E. {seg_c0 s, seg_c1 s})"
  define Y where "Y = seg_parent ` set E"
  have srt: "sorted live" and dist: "distinct (map seg_parent live)"
    and each: "\<And>s. s \<in> set live \<Longrightarrow> seg_c0 s \<noteq> seg_c1 s \<and> pim (seg_c0 s) = Some (seg_parent s) \<and>
          pim (seg_c1 s) = Some (seg_parent s) \<and> n < seg_parent s"
    and dpi: "dom pim = (\<Union>s\<in>set live. {seg_c0 s, seg_c1 s})"
    and dtau: "dom taum = {1..n} \<union> seg_parent ` set live"
    using inv by (auto simp: st_inv_def)
  have setE: "set E = {s \<in> set live. fst s \<le> l}" and setK: "set K = {s \<in> set live. l < fst s}"
    by (auto simp: E_def K_def)
  have live_EK: "set live = set E \<union> set K" by (auto simp: setE setK)
  have fE: "filter (\<lambda>s. fst s \<le> l) ?h = E"
    using B(1) by (simp add: heappush_def E_def filter_insort_triv)
  have fK: "filter (\<lambda>s. l < fst s) ?h = heappush K ?B"
    using B(1) srt by (simp add: heappush_def K_def filter_insort)
  have a1: "sorted ?h" using srt by (rule sorted_heappush)
  have a2: "\<exists>s\<in>set ?h. l < fst s" using B(1) by (auto simp: set_heappush)
  have a3: "distinct (map seg_parent (filter (\<lambda>s. fst s \<le> l) ?h))"
    unfolding fE E_def using dist by (rule distinct_map_filter)
  have a4: "\<forall>s\<in>set ?h. fst s \<le> l \<longrightarrow> seg_c0 s \<noteq> seg_c1 s \<and> pim (seg_c0 s) = Some (seg_parent s) \<and>
           pim (seg_c1 s) = Some (seg_parent s) \<and> seg_parent s \<in> dom taum"
  proof (intro ballI impI)
    fix s assume "s \<in> set ?h" "fst s \<le> l"
    with B(1) have "s \<in> set live" by (auto simp: set_heappush)
    with each[OF this] dtau
    show "seg_c0 s \<noteq> seg_c1 s \<and> pim (seg_c0 s) = Some (seg_parent s) \<and>
           pim (seg_c1 s) = Some (seg_parent s) \<and> seg_parent s \<in> dom taum" by auto
  qed
  have ev: "evict l ?h pim taum = Inr (heappush K ?B, pim |` (- X), taum |` (- Y))"
    using evict_expired[OF a1 a2 a3 a4] unfolding fE fK X_def Y_def .
  let ?pim' = "(pim |` (- X))(c0 \<mapsto> p, c1 \<mapsto> p)"
  let ?taum' = "(taum |` (- Y))(p \<mapsto> t)"
  have KX: "seg_c0 s \<notin> X \<and> seg_c1 s \<notin> X" if "s \<in> set K" for s
  proof -
    have "False" if e: "e \<in> set E" and c: "c \<in> {seg_c0 s, seg_c1 s}" "c \<in> {seg_c0 e, seg_c1 e}" for e c
    proof -
      from \<open>s \<in> set K\<close> e have "s \<in> set live" "e \<in> set live" by (auto simp: setE setK)
      from st_inv_shared_child[OF inv this c] have "s = e" .
      with \<open>s \<in> set K\<close> e show False by (auto simp: setE setK)
    qed
    then show ?thesis unfolding X_def by blast
  qed
  have KY: "seg_parent s \<notin> Y" if "s \<in> set K" for s
  proof
    assume "seg_parent s \<in> Y"
    then obtain e where e: "e \<in> set E" "seg_parent s = seg_parent e" by (auto simp: Y_def)
    from \<open>s \<in> set K\<close> e have "s \<in> set live" "e \<in> set live" by (auto simp: setE setK)
    from st_inv_same_parent[OF inv this e(2)] have "s = e" .
    with \<open>s \<in> set K\<close> e show False by (auto simp: setE setK)
  qed
  have Kc: "seg_parent s \<noteq> p \<and> seg_c0 s \<noteq> c0 \<and> seg_c0 s \<noteq> c1 \<and> seg_c1 s \<noteq> c0 \<and> seg_c1 s \<noteq> c1"
    if "s \<in> set K" for s
    using compat that by (auto simp: setK)
  have i1: "sorted (heappush K ?B)"
    unfolding K_def by (intro sorted_heappush sorted_wrt_filter) (rule srt)
  have i2: "distinct (map seg_parent (heappush K ?B))"
    unfolding heappush_def distinct_map_insort
    using Kc distinct_map_filter[OF dist, of "\<lambda>s. l < fst s"] by (auto simp: K_def)
  have i3: "seg_c0 s \<noteq> seg_c1 s \<and> ?pim' (seg_c0 s) = Some (seg_parent s) \<and>
          ?pim' (seg_c1 s) = Some (seg_parent s) \<and> n < seg_parent s"
    if "s \<in> set (heappush K ?B)" for s
  proof (cases "s = ?B")
    case True
    with B show ?thesis by simp
  next
    case False
    with that have sK: "s \<in> set K" by (auto simp: set_heappush)
    then have sl: "s \<in> set live" by (simp add: setK)
    from each[OF sl] KX[OF sK] Kc[OF sK] show ?thesis by (simp add: restrict_map_def)
  qed
  have XK: "(\<Union>s\<in>set live. {seg_c0 s, seg_c1 s}) - X = (\<Union>s\<in>set K. {seg_c0 s, seg_c1 s})"
  proof -
    have "{seg_c0 s, seg_c1 s} \<inter> X = {}" if "s \<in> set K" for s
      using KX[OF that] by simp
    then show ?thesis unfolding live_EK X_def by blast
  qed
  have i4: "dom ?pim' = (\<Union>s\<in>set (heappush K ?B). {seg_c0 s, seg_c1 s})"
  proof -
    have "dom ?pim' = insert c0 (insert c1 (dom pim - X))" by (auto simp: restrict_map_def dom_def)
    also have "\<dots> = insert c0 (insert c1 (\<Union>s\<in>set K. {seg_c0 s, seg_c1 s}))"
      unfolding dpi XK ..
    finally show ?thesis by (auto simp: set_heappush)
  qed
  have YK: "({1..n} \<union> seg_parent ` set live) - Y = {1..n} \<union> seg_parent ` set K"
  proof -
    have "x \<notin> Y" if "x \<in> {1..n}" for x
    proof
      assume "x \<in> Y"
      then obtain e where "e \<in> set E" "x = seg_parent e" by (auto simp: Y_def)
      with each[of e] that show False by (auto simp: setE)
    qed
    moreover have "seg_parent ` set E \<subseteq> Y" by (simp add: Y_def)
    ultimately show ?thesis unfolding live_EK using KY by blast
  qed
  have i5: "dom ?taum' = {1..n} \<union> seg_parent ` set (heappush K ?B)"
  proof -
    have "dom ?taum' = insert p (dom taum - Y)" by (auto simp: restrict_map_def dom_def)
    also have "\<dots> = insert p ({1..n} \<union> seg_parent ` set K)"
      unfolding dtau YK ..
    finally show ?thesis by (auto simp: set_heappush)
  qed
  have "st_inv n (heappush K ?B) ?pim' ?taum'"
    unfolding st_inv_def using i1 i2 i3 i4 i5 by blast
  with ev show ?thesis unfolding K_def by blast
qed

lemma snapshot_yield_tree [simp]:
  "snapshot_pi (yield_tree k pim taum) = pim" "snapshot_tau (yield_tree k pim taum) = taum"
  "y_length (yield_tree k pim taum) = k"
  by (simp_all add: snapshot_pi_def snapshot_tau_def yield_tree_def read_parent_map_def
      read_time_map_def pi_addr_def tau_addr_def)

lemma fst_seg_of [simp]: "fst (seg_of rc) = rec_right rc"
  by (simp add: seg_of_def)

lemma seg_of_simps [simp]:
  "seg_c0 (seg_of rc) = fst (rec_children rc)" "seg_c1 (seg_of rc) = snd (rec_children rc)"
  "seg_parent (seg_of rc) = rec_parent rc"
  by (simp_all add: seg_of_def seg_c0_def seg_c1_def seg_parent_def)

definition snapshot_of :: "nat \<Rightarrow> crecord list \<Rightarrow> int \<Rightarrow> yielded \<Rightarrow> bool" where
  "snapshot_of n rs x y =
     (\<exists>live. st_inv n live (snapshot_pi y) (snapshot_tau y) \<and>
        length live = length (covering x rs) \<and> set live = seg_of ` set (covering x rs))"

lemma covering_rev_append:
  "length (covering x (rev qs @ rs)) = length (covering x qs) + length (covering x rs)"
  "set (covering x (rev qs @ rs)) = set (covering x qs) \<union> set (covering x rs)"
  by (simp_all add: covering_def flip: rev_filter)

lemma covering_Nil [simp]: "covering x [] = []"
  by (simp add: covering_def)

lemma sparse_trees_loop_valid:
  assumes "sorted (map rec_left rs)" and "\<forall>rc\<in>set rs. l \<le> rec_left rc"
    and "\<forall>q\<in>set qs. rec_left q \<le> l"
    and "\<forall>rc\<in>set rs. rec_left rc < rec_right rc \<and> fst (rec_children rc) \<noteq> snd (rec_children rc) \<and>
           n < rec_parent rc"
    and "sorted_wrt compatible rs" and "\<forall>q\<in>set qs. \<forall>rc\<in>set rs. compatible q rc"
    and "live = sort (map seg_of (filter (\<lambda>q. l < rec_right q) qs))"
    and "st_inv n live pim taum"
    and "0 \<le> l" and "\<forall>rc\<in>set rs. rec_right rc < 2 ^ 32"
  shows "snd (sparse_trees_loop m rs l l live pim taum) = Exhausted \<and>
     sum_list (map y_length (fst (sparse_trees_loop m rs l l live pim taum))) = m - l \<and>
     (\<forall>y\<in>set (fst (sparse_trees_loop m rs l l live pim taum)).
        \<exists>x\<in>insert l (rec_left ` set rs). snapshot_of n (rev qs @ rs) x y)"
  using assms
proof (induction rs arbitrary: l qs live pim taum)
  case Nil
  have "covering l qs = filter (\<lambda>q. l < rec_right q) qs"
    unfolding covering_def using Nil.prems(3) by (intro filter_cong) auto
  then have "length live = length (covering l (rev qs @ []))"
      "set live = seg_of ` set (covering l (rev qs @ []))"
    unfolding covering_rev_append by (simp_all add: Nil.prems(7))
  with Nil.prems(8) have "snapshot_of n (rev qs @ []) l (yield_tree (m - l) pim taum)"
    unfolding snapshot_of_def by (intro exI[of _ live]) simp
  then show ?case by simp
next
  case (Cons rc rs)
  obtain l' r c0 c1 p t where rc: "rc = (l', r, (c0, c1), p, t)"
    by (cases rc) auto
  have acc: "rec_left rc = l'" "rec_right rc = r" "rec_children rc = (c0, c1)" "rec_parent rc = p"
    by (simp_all add: rc rec_left_def rec_right_def rec_children_def rec_parent_def)
  have seg: "seg_of rc = (r, (c0, c1), p)" by (simp add: seg_of_def acc)
  from Cons.prems(2) have ll': "l \<le> l'" by (simp add: acc)
  from Cons.prems(4) have B: "l' < r" "c0 \<noteq> c1" "n < p" by (simp_all add: acc)
  have live: "live = sort (map seg_of (filter (\<lambda>q. l < rec_right q) qs))" by (rule Cons.prems(7))
  have compat: "\<forall>s\<in>set live. l' < fst s \<longrightarrow> seg_parent s \<noteq> p \<and> seg_c0 s \<noteq> c0 \<and>
        seg_c0 s \<noteq> c1 \<and> seg_c1 s \<noteq> c0 \<and> seg_c1 s \<noteq> c1"
  proof (intro ballI impI)
    fix s assume "s \<in> set live" "l' < fst s"
    then obtain q where q: "q \<in> set qs" "s = seg_of q" "l' < rec_right q"
      by (auto simp: live)
    from Cons.prems(6) q(1) have "compatible q rc" by simp
    with q(3) show "seg_parent s \<noteq> p \<and> seg_c0 s \<noteq> c0 \<and>
        seg_c0 s \<noteq> c1 \<and> seg_c1 s \<noteq> c0 \<and> seg_c1 s \<noteq> c1"
      by (simp add: compatible_def acc q(2))
  qed
  from st_step[OF Cons.prems(8) B compat, of t]
  obtain pim' taum' where ev: "evict l' (heappush live (r, (c0, c1), p)) pim taum =
       Inr (heappush (filter (\<lambda>s. l' < fst s) live) (r, (c0, c1), p), pim', taum')"
    and inv': "st_inv n (heappush (filter (\<lambda>s. l' < fst s) live) (r, (c0, c1), p))
       (pim'(c0 \<mapsto> p, c1 \<mapsto> p)) (taum'(p \<mapsto> t))"
    by blast
  let ?live' = "heappush (filter (\<lambda>s. l' < fst s) live) (r, (c0, c1), p)"
  have fl: "filter (\<lambda>q. l < rec_right q \<and> l' < rec_right q) qs = filter (\<lambda>q. l' < rec_right q) qs"
    using ll' by (intro filter_cong) auto
  have live': "?live' = sort (map seg_of (filter (\<lambda>q. l' < rec_right q) (rc # qs)))"
    using B(1) by (simp add: live heappush_def filter_sort filter_map comp_def acc seg fl)
  have p1: "sorted (map rec_left rs)" using Cons.prems(1) by simp
  have p2: "\<forall>x\<in>set rs. l' \<le> rec_left x" using Cons.prems(1) by (simp add: acc)
  have p3: "\<forall>q\<in>set (rc # qs). rec_left q \<le> l'" using Cons.prems(3) ll' by (auto simp: acc)
  have p4: "\<forall>rc\<in>set rs. rec_left rc < rec_right rc \<and> fst (rec_children rc) \<noteq> snd (rec_children rc) \<and>
           n < rec_parent rc" using Cons.prems(4) by simp
  have p5: "sorted_wrt compatible rs" using Cons.prems(5) by simp
  have p6: "\<forall>q\<in>set (rc # qs). \<forall>x\<in>set rs. compatible q x" using Cons.prems(5,6) by auto
  have p9: "0 \<le> l'" using ll' Cons.prems(9) by simp
  have p10: "\<forall>rc\<in>set rs. rec_right rc < 2 ^ 32" using Cons.prems(10) by simp
  have r32: "r < 2 ^ 32" using Cons.prems(10) by (simp add: acc)
  have eq: "sub32 l' l = l' - l" using ll' Cons.prems(9) B(1) r32 by (simp add: sub32_id)
  let ?rest = "sparse_trees_loop m rs l' l' ?live' (pim'(c0 \<mapsto> p, c1 \<mapsto> p)) (taum'(p \<mapsto> t))"
  from Cons.IH[OF p1 p2 p3 p4 p5 p6 live' inv' p9 p10]
  have IH: "snd ?rest = Exhausted" "sum_list (map y_length (fst ?rest)) = m - l'"
    "\<forall>y\<in>set (fst ?rest). \<exists>x\<in>insert l' (rec_left ` set rs). snapshot_of n (rev (rc # qs) @ rs) x y"
    by blast+
  let ?ys = "if l \<noteq> l' then [yield_tree (l' - l) pim taum] else []"
  have unfold: "sparse_trees_loop m (rc # rs) l l live pim taum = (?ys @ fst ?rest, snd ?rest)"
    by (simp add: rc ev Let_def eq split: prod.splits)
  have now: "snapshot_of n (rev qs @ rc # rs) l (yield_tree (l' - l) pim taum)" if "l \<noteq> l'"
  proof -
    from that ll' have lt: "l < l'" by simp
    have "covering l (rc # rs) = []"
      unfolding covering_def filter_empty_conv using lt p2 by (auto simp: acc)
    moreover have "covering l qs = filter (\<lambda>q. l < rec_right q) qs"
      unfolding covering_def using Cons.prems(3) by (intro filter_cong) auto
    ultimately have "length live = length (covering l (rev qs @ rc # rs))"
      "set live = seg_of ` set (covering l (rev qs @ rc # rs))"
      unfolding covering_rev_append by (simp_all add: live)
    with Cons.prems(8) show ?thesis unfolding snapshot_of_def by (intro exI[of _ live]) simp
  qed
  have "sum_list (map y_length (?ys @ fst ?rest)) = m - l"
    using IH(2) by simp
  moreover have "\<forall>y\<in>set (?ys @ fst ?rest). \<exists>x\<in>insert l (rec_left ` set (rc # rs)).
      snapshot_of n (rev qs @ rc # rs) x y"
  proof
    fix y assume "y \<in> set (?ys @ fst ?rest)"
    then consider "l \<noteq> l'" "y = yield_tree (l' - l) pim taum" | "y \<in> set (fst ?rest)"
      by (auto split: if_splits)
    then show "\<exists>x\<in>insert l (rec_left ` set (rc # rs)). snapshot_of n (rev qs @ rc # rs) x y"
    proof cases
      case 1
      with now show ?thesis by blast
    next
      case 2
      with IH(3) obtain x where "x \<in> insert l' (rec_left ` set rs)"
        "snapshot_of n (rev (rc # qs) @ rs) x y" by blast
      then show ?thesis by (auto simp: acc)
    qed
  qed
  ultimately show ?case unfolding unfold using IH(1) by simp
qed

subsection \<open>The interval lengths of the three streams\<close>

lemma diffs_loop_Cons:
  "diffs_loop ((l, r, c, parent, t) # rs) left used rin rl =
     (if l \<noteq> left then
        ((sub32 l left, used left, rin) #
           fst (diffs_loop rs l ((used(left := []))(r := (used(left := [])) r @ [(c, parent, t)]))
                  [(c, parent, t)] (Some r)),
         snd (diffs_loop rs l ((used(left := []))(r := (used(left := [])) r @ [(c, parent, t)]))
                  [(c, parent, t)] (Some r)))
      else diffs_loop rs left (used(r := used r @ [(c, parent, t)]))
             (rin @ [(c, parent, t)]) (Some r))"
  by (simp add: Let_def split: prod.splits)

lemma diffs_loop_status:
  "snd (diffs_loop rs left used rin rl) =
     (if rs = [] \<and> rl = None then Raised UnboundLocalError else Exhausted)"
proof (induction rs arbitrary: left used rin rl)
  case Nil
  then show ?case by (simp split: option.splits)
next
  case (Cons rc rs)
  obtain l r c parent t where rc: "rc = (l, r, c, parent, t)" by (cases rc) auto
  show ?case unfolding rc diffs_loop_Cons
    by (simp add: Cons.IH del: fun_upd_apply)
qed

lemma diffs_loop_sum:
  assumes "rs \<noteq> [] \<or> rl \<noteq> None"
    and "sorted (map rec_left rs)" and "\<forall>rc\<in>set rs. left \<le> rec_left rc" and "0 \<le> left"
    and "\<forall>rc\<in>set rs. rec_left rc < rec_right rc \<and> rec_right rc < 2 ^ 32"
    and "rs = [] \<longrightarrow> left \<le> the rl \<and> the rl < 2 ^ 32"
  shows "sum_list (map fst (fst (diffs_loop rs left used rin rl))) =
     (if rs = [] then the rl else rec_right (last rs)) - left"
  using assms
proof (induction rs arbitrary: left used rin rl)
  case Nil
  then show ?case by (auto split: option.splits simp: sub32_id)
next
  case (Cons rc rs)
  obtain l r c parent t where rc: "rc = (l, r, c, parent, t)" by (cases rc) auto
  have acc: "rec_left rc = l" "rec_right rc = r" by (simp_all add: rc rec_left_def rec_right_def)
  from Cons.prems have ll: "left \<le> l" and lr: "l < r" and r32: "r < 2 ^ 32"
    by (simp_all add: acc)
  have p2: "sorted (map rec_left rs)" and p3: "\<forall>rc\<in>set rs. l \<le> rec_left rc"
    and p5: "\<forall>rc\<in>set rs. rec_left rc < rec_right rc \<and> rec_right rc < 2 ^ 32"
    using Cons.prems by (auto simp: acc)
  have IH: "sum_list (map fst (fst (diffs_loop rs left' used' rin' (Some r)))) =
     (if rs = [] then r else rec_right (last rs)) - left'"
    if "left' \<le> l" "0 \<le> left'" for left' used' rin'
  proof -
    have q3: "\<forall>rc\<in>set rs. left' \<le> rec_left rc" using p3 that(1) by auto
    have q6: "rs = [] \<longrightarrow> left' \<le> the (Some r) \<and> the (Some r) < 2 ^ 32"
      using that(1) lr r32 by simp
    from Cons.IH[OF _ p2 q3 that(2) p5 q6, of used' rin'] show ?thesis by simp
  qed
  have fin: "(if rc # rs = [] then the rl else rec_right (last (rc # rs)))
      = (if rs = [] then r else rec_right (last rs))"
    by (simp add: rc rec_right_def)
  have eq: "sub32 l left = l - left" using ll Cons.prems(4) lr r32 by (simp add: sub32_id)
  have l0: "0 \<le> l" using ll Cons.prems(4) by simp
  show ?case unfolding fin unfolding rc diffs_loop_Cons
    using IH[of l] IH[of left] ll Cons.prems(4) l0
    by (cases "l = left") (simp_all add: eq del: fun_upd_apply)
qed

lemma diffs_loop_on_breaks:
  assumes "sorted (map rec_left rs)" and "\<forall>rc\<in>set rs. left \<le> rec_left rc"
    and "\<forall>rc\<in>set rs. rec_left rc < rec_right rc"
    and "rec_left ` set rs \<subseteq> set b"
    and "rs = [] \<longrightarrow> (\<exists>r. rl = Some r \<and> left < r \<and> r < 2 ^ 32 \<and> r \<in> set b)"
    and "rs \<noteq> [] \<longrightarrow> rec_right (last rs) \<in> set b"
    and "0 \<le> left" and "\<forall>rc\<in>set rs. rec_right rc < 2 ^ 32"
  shows "on_breaks b left (fst (diffs_loop rs left used rin rl))"
  using assms
proof (induction rs arbitrary: left used rin rl)
  case Nil
  then show ?case by (auto simp: sub32_id)
next
  case (Cons rc rs)
  obtain l r c parent t where rc: "rc = (l, r, c, parent, t)" by (cases rc) auto
  have acc: "rec_left rc = l" "rec_right rc = r" by (simp_all add: rc rec_left_def rec_right_def)
  from Cons.prems have lr: "l < r" and ll: "left \<le> l" and lb: "l \<in> set b"
    and r32: "r < 2 ^ 32"
    by (simp_all add: acc)
  have p1: "sorted (map rec_left rs)" and p2: "\<forall>rc\<in>set rs. l \<le> rec_left rc"
    and p3: "\<forall>rc\<in>set rs. rec_left rc < rec_right rc" and p4: "rec_left ` set rs \<subseteq> set b"
    and p8: "\<forall>rc\<in>set rs. rec_right rc < 2 ^ 32"
    using Cons.prems by (auto simp: acc)
  have p5: "rs = [] \<longrightarrow> (\<exists>r'. Some r = Some r' \<and> l < r' \<and> r' < 2 ^ 32 \<and> r' \<in> set b)"
    using Cons.prems(6) lr r32 by (auto simp: acc)
  have p6: "rs \<noteq> [] \<longrightarrow> rec_right (last rs) \<in> set b"
    using Cons.prems(6) by auto
  have p7: "0 \<le> l" using ll Cons.prems(7) by simp
  have IH: "on_breaks b l (fst (diffs_loop rs l used' rin' (Some r)))" for used' rin'
    by (rule Cons.IH[OF p1 p2 p3 p4 p5 p6 p7 p8])
  have eq: "sub32 l left = l - left" using ll Cons.prems(7) lr r32 by (simp add: sub32_id)
  show ?case
  proof (cases "l = left")
    case True
    with IH show ?thesis unfolding rc diffs_loop_Cons by (simp del: fun_upd_apply)
  next
    case False
    with ll have "0 < l - left" by simp
    with IH False lb show ?thesis unfolding rc diffs_loop_Cons
      by (simp add: eq del: fun_upd_apply)
  qed
qed

lemma breaks_while_found:
  assumes "sorted_wrt (<) b" and "k < length b" and "x \<in> set (drop k b)"
    and "0 \<le> b ! k" and "x < 2 ^ 32"
  shows "\<exists>ys k'. breaks_while b x k = (ys, Inr k') \<and> k \<le> k' \<and> k' < length b \<and> b ! k' = x \<and>
           sum_list (map fst ys) = b ! k' - b ! k"
  using assms
proof (induction b x k rule: breaks_while.induct)
  case (1 b x k)
  show ?case
  proof (cases "b ! k = x")
    case True
    with "1.prems" show ?thesis by (subst breaks_while.simps) simp
  next
    case False
    from "1.prems"(2) have dk: "drop k b = b ! k # drop (Suc k) b"
      by (simp add: Cons_nth_drop_Suc)
    with "1.prems"(3) False have mem: "x \<in> set (drop (Suc k) b)" by auto
    then have sk: "Suc k < length b" by (cases "Suc k < length b") auto
    have up: "b ! k < b ! Suc k"
      using "1.prems"(1) sk by (simp add: sorted_wrt_iff_nth_less)
    then have pos: "0 \<le> b ! Suc k" using "1.prems"(4) by simp
    from "1.IH"[OF _ False _ "1.prems"(1) sk mem pos "1.prems"(5)] "1.prems"(2) sk
    obtain ys k' where r: "breaks_while b x (Suc k) = (ys, Inr k')" "Suc k \<le> k'" "k' < length b"
      "b ! k' = x" "sum_list (map fst ys) = b ! k' - b ! Suc k"
      by auto
    have "b ! Suc k \<le> b ! k'"
      using "1.prems"(1) r(2,3) by (cases "Suc k = k'") (auto simp: sorted_wrt_iff_nth_less less_imp_le)
    with r(4) "1.prems"(5) have "b ! Suc k < 2 ^ 32" by simp
    with up "1.prems"(4) have eq: "sub32 (b ! Suc k) (b ! k) = b ! Suc k - b ! k"
      by (simp add: sub32_id)
    have "breaks_while b x k = ((b ! Suc k - b ! k, [], []) # ys, Inr k')"
      using False "1.prems"(2) sk r(1) by (subst breaks_while.simps) (simp add: eq)
    with r show ?thesis by auto
  qed
qed

lemma on_breaks_sum_nonneg: "on_breaks b x ds \<Longrightarrow> 0 \<le> sum_list (map fst ds)"
  by (induction b x ds rule: on_breaks.induct) auto

lemma breaks_loop_ok:
  assumes "sorted_wrt (<) b" and "1 \<le> k" and "k \<le> length b" and "b ! (k - 1) = x"
    and "on_breaks b x ds" and "0 \<le> x" and "x + sum_list (map fst ds) < 2 ^ 32"
  shows "snd (breaks_loop b ds k x) = Exhausted \<and>
         sum_list (map fst (fst (breaks_loop b ds k x))) = sum_list (map fst ds)"
  using assms
proof (induction b ds k x rule: breaks_loop.induct)
  case (1 b k x)
  then show ?case by simp
next
  case (2 b len records_out records_in ds k x)
  from "2.prems"(5) have len: "0 < len" and mem: "x + len \<in> set b"
    and rest: "on_breaks b (x + len) ds" by simp_all
  from on_breaks_sum_nonneg[OF rest] "2.prems"(7) have x32: "x + len < 2 ^ 32" by simp
  from mem obtain j where j: "j < length b" "b ! j = x + len" by (auto simp: in_set_conv_nth)
  have kj: "k \<le> j"
  proof (rule ccontr)
    assume "\<not> k \<le> j"
    then have "j \<le> k - 1" by simp
    moreover have "k - 1 < length b" using "2.prems"(2,3) by simp
    ultimately have "b ! j \<le> b ! (k - 1)"
      using "2.prems"(1) by (cases "j = k - 1") (auto simp: sorted_wrt_iff_nth_less less_imp_le)
    with j(2) "2.prems"(4) len show False by simp
  qed
  with j(1) have kl: "k < length b" by simp
  have up: "b ! (k - 1) < b ! k"
    using "2.prems"(1,2) kl by (simp add: sorted_wrt_iff_nth_less)
  then have bk0: "0 \<le> b ! k" using "2.prems"(4,6) by simp
  have "x + len \<in> set (drop k b)"
    unfolding in_set_conv_nth using j kj
    by (intro exI[of _ "j - k"]) simp
  from breaks_while_found[OF "2.prems"(1) kl this bk0 x32]
  obtain ys k' where w: "breaks_while b (x + len) k = (ys, Inr k')" "k \<le> k'" "k' < length b"
    "b ! k' = x + len" "sum_list (map fst ys) = b ! k' - b ! k"
    by blast
  have "b ! k \<le> b ! k'"
    using "2.prems"(1) w(2,3) by (cases "k = k'") (auto simp: sorted_wrt_iff_nth_less less_imp_le)
  with w(4) x32 have "b ! k < 2 ^ 32" by simp
  with up "2.prems"(4,6) have eq: "sub32 (b ! k) (b ! (k - 1)) = b ! k - b ! (k - 1)"
    by (simp add: sub32_id)
  have nk: "\<not> length b \<le> k" using kl by simp
  have x0: "0 \<le> x + len" using len "2.prems"(6) by simp
  have s32: "x + len + sum_list (map fst ds) < 2 ^ 32" using "2.prems"(7) by simp
  from "2.IH"[OF nk w(1)[symmetric] refl "2.prems"(1) _ _ _ rest x0 s32] w(3,4)
  have IH: "snd (breaks_loop b ds (Suc k') (x + len)) = Exhausted"
    "sum_list (map fst (fst (breaks_loop b ds (Suc k') (x + len)))) = sum_list (map fst ds)"
    by simp_all
  have eq': "sub32 (b ! k) x = b ! k - x" using eq "2.prems"(4) by simp
  show ?case
    using nk w IH "2.prems"(4) by (auto simp: eq' split: prod.splits)
qed

lemma st_inv_initial:
  "st_inv n [] Map.empty (\<lambda>j. if 1 \<le> j \<and> j \<le> n then Some 0 else None)"
  by (auto simp: st_inv_def dom_def)

lemma sorted_map_last:
  "sorted (map f xs) \<Longrightarrow> x \<in> set xs \<Longrightarrow> f x \<le> f (last xs)"
  by (induction xs) (auto split: if_splits)

lemma valid_records_last_right:
  assumes "valid_records n m rs"
  shows "rec_right (last rs) = m"
proof (rule ccontr)
  assume ne: "rec_right (last rs) \<noteq> m"
  from assms have rs: "rs \<noteq> []" and srt: "sorted (map rec_left rs)"
    and wf: "\<forall>rc\<in>set rs. well_formed_record n m rs rc"
    by (auto simp: valid_records_def list_all_iff)
  from rs have "last rs \<in> set rs" by simp
  with wf have w: "well_formed_record n m rs (last rs)" by blast
  with ne obtain q where q: "q \<in> set rs" "rec_right (last rs) = rec_left q"
    by (auto simp: well_formed_record_def)
  from sorted_map_last[OF srt q(1)] have "rec_left q \<le> rec_left (last rs)" .
  with w q(2) show False by (simp add: well_formed_record_def)
qed

lemma valid_ts_ex: "valid_tree_sequence ts_ex"
proof -
  have "valid_records 3 10 (records ts_ex)"
    unfolding records_ts_ex valid_records_def
    by (simp add: well_formed_record_def compatible_def rec_left_def rec_right_def
        rec_children_def rec_parent_def)
  moreover have "valid_breakpoints [0, 4, 10] 10 (records ts_ex)"
    unfolding records_ts_ex valid_breakpoints_def by (simp add: rec_left_def)
  ultimately show ?thesis by (simp add: valid_tree_sequence_def ts_ex_def)
qed

text \<open>
  Claim C1. For a valid tree sequence, each of the three streams (the sparse
  trees, the diffs, the diffs split at the breakpoints) runs to its end without
  raising, and the interval lengths it yields add up to \<^verbatim>\<open>num_loci\<close>.
\<close>

theorem interval_lengths_sum_to_num_loci:
  assumes "valid_tree_sequence ts"
  shows "snd (sparse_trees ts) = Exhausted \<and>
         sum_list (map y_length (fst (sparse_trees ts))) = ts_num_loci ts \<and>
         snd (diffs_plain ts) = Exhausted \<and>
         sum_list (map fst (fst (diffs_plain ts))) = ts_num_loci ts \<and>
         snd (diffs_with_breaks ts) = Exhausted \<and>
         sum_list (map fst (fst (diffs_with_breaks ts))) = ts_num_loci ts"
proof -
  let ?rs = "records ts" and ?n = "ts_sample_size ts" and ?m = "ts_num_loci ts"
  let ?b = "ts_breakpoints ts"
  from assms have vr: "valid_records ?n ?m ?rs" and vb: "valid_breakpoints ?b ?m ?rs"
    by (simp_all add: valid_tree_sequence_def)
  from vr have ne: "?rs \<noteq> []" and srt: "sorted (map rec_left ?rs)"
    and wf: "\<forall>rc\<in>set ?rs. well_formed_record ?n ?m ?rs rc"
    and cmp: "sorted_wrt compatible ?rs"
    by (auto simp: valid_records_def list_all_iff)
  have pos: "\<forall>rc\<in>set ?rs. 0 \<le> rec_left rc" using wf by (simp add: well_formed_record_def)
  have lr: "\<forall>rc\<in>set ?rs. rec_left rc < rec_right rc"
    using wf by (simp add: well_formed_record_def)
  have wf': "\<forall>rc\<in>set ?rs. rec_left rc < rec_right rc \<and>
      fst (rec_children rc) \<noteq> snd (rec_children rc) \<and> ?n < rec_parent rc"
    using wf by (simp add: well_formed_record_def)
  have r32: "\<forall>rc\<in>set ?rs. rec_right rc < 2 ^ 32"
    using wf by (simp add: well_formed_record_def)
  have lr32: "\<forall>rc\<in>set ?rs. rec_left rc < rec_right rc \<and> rec_right rc < 2 ^ 32"
    using wf by (simp add: well_formed_record_def)
  have sp: "snd (sparse_trees ts) = Exhausted \<and>
         sum_list (map y_length (fst (sparse_trees ts))) = ?m"
    using sparse_trees_loop_valid[OF srt pos _ wf' cmp _ _ st_inv_initial _ r32, of "[]" ?m]
    by (simp add: sparse_trees_def)
  have last: "rec_right (last ?rs) = ?m" using vr by (rule valid_records_last_right)
  have m32: "?m < 2 ^ 32" using r32 ne last last_in_set by metis
  have d1: "snd (diffs_plain ts) = Exhausted"
    using ne by (simp add: diffs_plain_def diffs_loop_status)
  have d2: "sum_list (map fst (fst (diffs_plain ts))) = ?m"
    unfolding diffs_plain_def
    using diffs_loop_sum[OF _ srt pos _ lr32, of None "\<lambda>_. []" "[]"] ne last by simp
  from vb have b: "?b \<noteq> []" "hd ?b = 0" "sorted_wrt (<) ?b" "?m \<in> set ?b"
    "rec_left ` set ?rs \<subseteq> set ?b"
    by (simp_all add: valid_breakpoints_def)
  have ob: "on_breaks ?b 0 (fst (diffs_plain ts))"
    unfolding diffs_plain_def
    using ne last b(4) r32 by (intro diffs_loop_on_breaks[OF srt pos lr b(5)]) simp_all
  have b0: "?b ! (1 - 1) = 0" using b(1,2) by (simp add: hd_conv_nth)
  have bl: "1 \<le> length ?b" using b(1) by (cases ?b) simp_all
  from breaks_loop_ok[OF b(3) _ bl b0 ob] d2 m32
  have bk: "snd (breaks_loop ?b (fst (diffs_plain ts)) 1 0) = Exhausted"
    "sum_list (map fst (fst (breaks_loop ?b (fst (diffs_plain ts)) 1 0))) = ?m"
    using d2 by simp_all
  have "snd (diffs_with_breaks ts) = Exhausted \<and>
         sum_list (map fst (fst (diffs_with_breaks ts))) = ?m"
    using bk d1 by (auto simp: diffs_with_breaks_def split: prod.splits status.splits)
  with sp d1 d2 show ?thesis by simp
qed

theorem interval_lengths_sum_to_num_loci_witness:
  "valid_tree_sequence ts_ex \<and>
   sum_list (map y_length (fst (sparse_trees ts_ex))) = 10 \<and>
   sum_list (map fst (fst (diffs_plain ts_ex))) = 10 \<and>
   sum_list (map fst (fst (diffs_with_breaks ts_ex))) = 10"
  using interval_lengths_sum_to_num_loci[OF valid_ts_ex] valid_ts_ex
  by (simp add: ts_ex_def)

subsection \<open>What the diff generator checks\<close>

lemma diffs_loop_shape:
  "rs \<noteq> [] \<or> rl \<noteq> None \<Longrightarrow>
   map fst (fst (diffs_loop rs left used rin rl)) =
     map (\<lambda>(a, b). sub32 b a)
       (filter (\<lambda>(a, b). a \<noteq> b) (zip (left # map rec_left rs) (map rec_left rs))) @
     [if rs = [] then sub32 (the rl) left
      else sub32 (rec_right (last rs)) (rec_left (last rs))] \<and>
   concat (map (\<lambda>d. snd (snd d)) (fst (diffs_loop rs left used rin rl))) =
     rin @ map (\<lambda>rc. (rec_children rc, rec_parent rc, rec_time rc)) rs"
proof (induction rs arbitrary: left used rin rl)
  case Nil
  then show ?case by (auto split: option.splits)
next
  case (Cons rc rs)
  obtain l r c parent t where rc: "rc = (l, r, c, parent, t)" by (cases rc) auto
  have acc: "rec_left rc = l" "rec_right rc = r" "rec_children rc = c" "rec_parent rc = parent"
    "rec_time rc = t"
    by (simp_all add: rc rec_left_def rec_right_def rec_children_def rec_parent_def rec_time_def)
  let ?tail = "\<lambda>left'. map (\<lambda>(a, b). sub32 b a)
       (filter (\<lambda>(a, b). a \<noteq> b) (zip (left' # map rec_left rs) (map rec_left rs))) @
     [if rs = [] then sub32 r left' else sub32 (rec_right (last rs)) (rec_left (last rs))]"
  have IH: "map fst (fst (diffs_loop rs left' used' rin' (Some r))) = ?tail left' \<and>
     concat (map (\<lambda>d. snd (snd d)) (fst (diffs_loop rs left' used' rin' (Some r)))) =
       rin' @ map (\<lambda>rc. (rec_children rc, rec_parent rc, rec_time rc)) rs" for left' used' rin'
    using Cons.IH[of "Some r" left' used' rin'] by simp
  have fin: "(if rc # rs = [] then sub32 (the rl) left
      else sub32 (rec_right (last (rc # rs))) (rec_left (last (rc # rs)))) =
      (if rs = [] then sub32 r l else sub32 (rec_right (last rs)) (rec_left (last rs)))"
    by (simp add: acc)
  show ?case
  proof (cases "l = left")
    case True
    have "diffs_loop (rc # rs) left used rin rl =
        diffs_loop rs left (used(r := used r @ [(c, parent, t)])) (rin @ [(c, parent, t)]) (Some r)"
      unfolding rc diffs_loop_Cons using True by simp
    with IH[of left] True show ?thesis unfolding fin by (simp add: acc del: fun_upd_apply)
  next
    case False
    let ?used = "(used(left := []))(r := (used(left := [])) r @ [(c, parent, t)])"
    have "fst (diffs_loop (rc # rs) left used rin rl) =
        (sub32 l left, used left, rin) # fst (diffs_loop rs l ?used [(c, parent, t)] (Some r))"
      unfolding rc diffs_loop_Cons using False by simp
    with IH[of l ?used "[(c, parent, t)]"] False show ?thesis
      unfolding fin by (simp add: acc del: fun_upd_apply)
  qed
qed

lemma records_ts_open:
  "records ts_open = [(0, 10, (1, 2), 4, 1), (0, 4, (3, 4), 5, 2), (4, 7, (3, 4), 6, 3)]"
  by (simp add: records_def ts_open_def)

lemma records_ts_back:
  "records ts_back = [(0, 10, (1, 2), 4, 1), (0, 4, (3, 4), 5, 2), (4, 2, (3, 4), 6, 3)]"
  by (simp add: records_def ts_back_def)

text \<open>
  Claim C8, as amended, for a tree sequence whose arrays hold \<^verbatim>\<open>uint32\<close> values
  (what the constructor stores). \<^verbatim>\<open>_diffs\<close> compares no \<^verbatim>\<open>right\<close> with a closing
  boundary and never looks at the edges still held in \<^verbatim>\<open>used_records\<close>. It
  raises only when there is no record at all (the final yield reads the unbound
  local \<^verbatim>\<open>r\<close>), and then it has yielded nothing. With at least one record it
  ends without raising: it yields one tuple each time the \<^verbatim>\<open>left\<close> of a record
  differs from the \<^verbatim>\<open>left\<close> before it (0 before the first record), of the
  \<^verbatim>\<open>uint32\<close> difference of the two as its length, and one last tuple whose length
  is the \<^verbatim>\<open>uint32\<close> difference \<^verbatim>\<open>right - left\<close> of the last record, whatever that
  \<^verbatim>\<open>right\<close> is; and every record is handed over, in order, among the incoming
  records of the tuples.
\<close>

theorem diffs_plain_makes_no_check:
  assumes "uint32_arrays ts"
  shows
  "snd (diffs_plain ts) = (if records ts = [] then Raised UnboundLocalError else Exhausted) \<and>
   (records ts = [] \<longrightarrow> fst (diffs_plain ts) = []) \<and>
   (records ts \<noteq> [] \<longrightarrow>
      map fst (fst (diffs_plain ts)) =
        map (\<lambda>(a, b). sub32 b a)
          (filter (\<lambda>(a, b). a \<noteq> b)
             (zip (0 # map rec_left (records ts)) (map rec_left (records ts)))) @
        [sub32 (rec_right (last (records ts))) (rec_left (last (records ts)))] \<and>
      concat (map (\<lambda>d. snd (snd d)) (fst (diffs_plain ts))) =
        map (\<lambda>rc. (rec_children rc, rec_parent rc, rec_time rc)) (records ts))"
proof (cases "records ts = []")
  case True
  then show ?thesis by (simp add: diffs_plain_def)
next
  case False
  with diffs_loop_shape[of "records ts" None 0 "\<lambda>_. []" "[]"] show ?thesis
    by (simp add: diffs_plain_def diffs_loop_status)
qed

theorem diffs_plain_makes_no_check_witness:
  "records ts_back \<noteq> [] \<and> snd (diffs_plain ts_back) = Exhausted \<and>
   map fst (fst (diffs_plain ts_back)) = [4, 4294967294] \<and>
   concat (map (\<lambda>d. snd (snd d)) (fst (diffs_plain ts_back))) =
     [((1, 2), 4, 1), ((3, 4), 5, 2), ((3, 4), 6, 3)]"
proof -
  have "uint32_arrays ts_back" by (simp add: uint32_arrays_def ts_back_def)
  from diffs_plain_makes_no_check[OF this] show ?thesis
  by (simp add: records_ts_back rec_right_def rec_left_def rec_children_def rec_parent_def
      rec_time_def sub32_def uint32_def)
qed

text \<open>
  Claim C8 as stated fails. In \<open>ts_open\<close> the last record ends at 7, not at
  \<^verbatim>\<open>num_loci = 10\<close>, and the edges of two records are never retired; \<^verbatim>\<open>_diffs\<close>
  yields a tuple for each of the two runs and ends without an error.
\<close>

theorem diffs_plain_accepts_open_run:
  "rec_right (last (records ts_open)) \<noteq> ts_num_loci ts_open \<and>
   diffs_plain ts_open =
     ([(4, [], [((1, 2), 4, 1), ((3, 4), 5, 2)]), (3, [((3, 4), 5, 2)], [((3, 4), 6, 3)])],
      Exhausted)"
  by (simp add: diffs_plain_def records_ts_open rec_right_def sub32_def uint32_def)
    (simp add: ts_open_def)

subsection \<open>What the sparse-tree generator yields\<close>

lemma sparse_trees_loop_yields:
  "y \<in> set (fst (sparse_trees_loop m rs l last_l live pim taum)) \<Longrightarrow>
   \<exists>k pim' taum'. y = yield_tree k pim' taum'"
proof (induction rs arbitrary: l last_l live pim taum)
  case Nil
  then show ?case by auto
next
  case (Cons rc rs)
  obtain l' r c0 c1 p t where rc: "rc = (l', r, (c0, c1), p, t)"
    by (cases rc) auto
  show ?case
  proof (cases "evict l' (heappush live (r, (c0, c1), p)) pim taum")
    case (Inl e)
    with Cons.prems show ?thesis by (auto simp: rc Let_def split: if_splits)
  next
    case (Inr res)
    obtain live' pim' taum' where res: "res = (live', pim', taum')" by (cases res) auto
    from Cons.prems Inr res
    have "y = yield_tree (sub32 l' last_l) pim taum \<or>
      y \<in> set (fst (sparse_trees_loop m rs l' l' live' (pim'(c0 \<mapsto> p, c1 \<mapsto> p)) (taum'(p \<mapsto> t))))"
      by (auto simp: rc Let_def split: if_splits prod.splits)
    with Cons.IH show ?thesis by blast
  qed
qed

lemma read_yield_tree [simp]:
  "read_parent_map (y_store (yield_tree k pim taum)) pi_addr = pim"
  "read_time_map (y_store (yield_tree k pim taum)) tau_addr = taum"
  "y_parent_map (yield_tree k pim taum) = pi_addr" "y_time_map (yield_tree k pim taum) = tau_addr"
  by (simp_all add: yield_tree_def read_parent_map_def read_time_map_def pi_addr_def tau_addr_def)

lemma st_inv_consistent:
  assumes "st_inv n live pim taum" and "pim c = Some p"
  shows "p \<in> dom taum"
proof -
  from assms have "c \<in> (\<Union>s\<in>set live. {seg_c0 s, seg_c1 s})"
    unfolding st_inv_def by blast
  then obtain s where s: "s \<in> set live" "c = seg_c0 s \<or> c = seg_c1 s" by auto
  with assms(1) have "pim c = Some (seg_parent s)" unfolding st_inv_def by blast
  with assms(2) have "p = seg_parent s" by simp
  with s(1) assms(1) show ?thesis unfolding st_inv_def by blast
qed

lemma sparse_trees_snapshots:
  assumes "valid_tree_sequence ts" and "y \<in> set (fst (sparse_trees ts))"
  shows "\<exists>x\<in>insert 0 (rec_left ` set (records ts)).
           snapshot_of (ts_sample_size ts) (records ts) x y"
proof -
  let ?rs = "records ts" and ?n = "ts_sample_size ts" and ?m = "ts_num_loci ts"
  from assms have vr: "valid_records ?n ?m ?rs"
    by (simp_all add: valid_tree_sequence_def)
  from vr have srt: "sorted (map rec_left ?rs)"
    and wf: "\<forall>rc\<in>set ?rs. well_formed_record ?n ?m ?rs rc"
    and cmp: "sorted_wrt compatible ?rs"
    by (auto simp: valid_records_def list_all_iff)
  have pos: "\<forall>rc\<in>set ?rs. 0 \<le> rec_left rc" using wf by (simp add: well_formed_record_def)
  have wf': "\<forall>rc\<in>set ?rs. rec_left rc < rec_right rc \<and>
      fst (rec_children rc) \<noteq> snd (rec_children rc) \<and> ?n < rec_parent rc"
    using wf by (simp add: well_formed_record_def)
  have r32: "\<forall>rc\<in>set ?rs. rec_right rc < 2 ^ 32"
    using wf by (simp add: well_formed_record_def)
  from sparse_trees_loop_valid[OF srt pos _ wf' cmp _ _ st_inv_initial _ r32, of "[]" ?m] assms(2)
  show ?thesis by (simp add: sparse_trees_def)
qed

text \<open>
  Claim C4, as amended. For a valid tree sequence, every triple that
  \<^verbatim>\<open>sparse_trees\<close> yields holds the same two dictionary objects, the generator's
  own \<^verbatim>\<open>pi\<close> and \<^verbatim>\<open>tau\<close>, not copies. Read when the triple is yielded they are
  consistent (every parent named in the parent map has a time); read at the
  moment of any other yield, through any yielded triple, they show the contents
  of that moment.
\<close>

theorem sparse_trees_yields_live_maps:
  assumes "valid_tree_sequence ts" and "y \<in> set (fst (sparse_trees ts))"
  shows "y_parent_map y = pi_addr \<and> y_time_map y = tau_addr \<and>
         (\<forall>c p. snapshot_pi y c = Some p \<longrightarrow> p \<in> dom (snapshot_tau y)) \<and>
         (\<forall>y'\<in>set (fst (sparse_trees ts)).
            read_parent_map (y_store y') (y_parent_map y) = snapshot_pi y' \<and>
            read_time_map (y_store y') (y_time_map y) = snapshot_tau y')"
proof -
  from assms(2) obtain k pim taum where y: "y = yield_tree k pim taum"
    unfolding sparse_trees_def by (blast dest: sparse_trees_loop_yields)
  from sparse_trees_snapshots[OF assms] obtain live where
    "st_inv (ts_sample_size ts) live (snapshot_pi y) (snapshot_tau y)"
    unfolding snapshot_of_def by blast
  then have cons: "\<forall>c p. snapshot_pi y c = Some p \<longrightarrow> p \<in> dom (snapshot_tau y)"
    by (metis st_inv_consistent)
  have "read_parent_map (y_store y') (y_parent_map y) = snapshot_pi y' \<and>
        read_time_map (y_store y') (y_time_map y) = snapshot_tau y'"
    if "y' \<in> set (fst (sparse_trees ts))" for y'
  proof -
    from that obtain k' pim' taum' where "y' = yield_tree k' pim' taum'"
      unfolding sparse_trees_def by (blast dest: sparse_trees_loop_yields)
    then show ?thesis by (simp add: y)
  qed
  with cons show ?thesis by (simp add: y)
qed

lemma sparse_trees_ts_ex_two:
  "\<exists>y1 y2. fst (sparse_trees ts_ex) = [y1, y2] \<and> snapshot_pi y1 3 = Some 5 \<and>
     read_parent_map (y_store y2) (y_parent_map y1) 3 = Some 6"
proof -
  have n: "ts_sample_size ts_ex = 3" "ts_num_loci ts_ex = 10" by (simp_all add: ts_ex_def)
  show ?thesis
    unfolding sparse_trees_def records_ts_ex n
    by (simp add: heappush_def del_item_def less_eq_prod_def less_prod_def Let_def)
qed

theorem sparse_trees_yields_live_maps_witness:
  "\<exists>y. y \<in> set (fst (sparse_trees ts_ex)) \<and> y_parent_map y = pi_addr \<and>
     y_time_map y = tau_addr \<and> snapshot_pi y 3 = Some 5 \<and> 5 \<in> dom (snapshot_tau y)"
proof -
  from sparse_trees_ts_ex_two obtain y1 y2 where
    y: "fst (sparse_trees ts_ex) = [y1, y2]" "snapshot_pi y1 3 = Some 5" by blast
  then have "y1 \<in> set (fst (sparse_trees ts_ex))" by simp
  from sparse_trees_yields_live_maps[OF valid_ts_ex this] y(2) this show ?thesis by blast
qed

text \<open>
  Claim C4 as stated fails. \<open>ts_ex\<close> yields two triples. The parent map of the
  first maps node 3 to node 5 when it is yielded; once the generator has
  advanced to the second yield, the same object maps node 3 to node 6.
\<close>

theorem yielded_maps_change_when_advancing:
  "\<exists>y1 y2. fst (sparse_trees ts_ex) = [y1, y2] \<and> snapshot_pi y1 3 = Some 5 \<and>
     read_parent_map (y_store y2) (y_parent_map y1) 3 = Some 6"
  by (rule sparse_trees_ts_ex_two)

subsection \<open>The node counts of a fully coalesced tree\<close>

lemma st_inv_card:
  assumes "st_inv n live pim taum"
  shows "card (dom pim) = 2 * length live \<and> card (dom taum) = n + length live"
proof -
  from assms have dist: "distinct (map seg_parent live)"
    and each: "\<And>s. s \<in> set live \<Longrightarrow> seg_c0 s \<noteq> seg_c1 s \<and> n < seg_parent s"
    and dpi: "dom pim = (\<Union>s\<in>set live. {seg_c0 s, seg_c1 s})"
    and dtau: "dom taum = {1..n} \<union> seg_parent ` set live"
    by (auto simp: st_inv_def)
  from dist have dl: "distinct live" by (simp add: distinct_map)
  have disj: "{seg_c0 s, seg_c1 s} \<inter> {seg_c0 e, seg_c1 e} = {}"
    if "s \<in> set live" "e \<in> set live" "s \<noteq> e" for s e
  proof (rule ccontr)
    assume "{seg_c0 s, seg_c1 s} \<inter> {seg_c0 e, seg_c1 e} \<noteq> {}"
    then obtain c where "c \<in> {seg_c0 s, seg_c1 s}" "c \<in> {seg_c0 e, seg_c1 e}" by blast
    from st_inv_shared_child[OF assms that(1,2) this] that(3) show False by simp
  qed
  have "card (dom pim) = (\<Sum>s\<in>set live. card {seg_c0 s, seg_c1 s})"
    unfolding dpi by (rule card_UN_disjoint) (use disj in auto)
  also have "\<dots> = (\<Sum>s\<in>set live. 2)"
    by (rule sum.cong) (use each in auto)
  also have "\<dots> = 2 * length live"
    using dl by (simp add: distinct_card)
  finally have c1: "card (dom pim) = 2 * length live" .
  have "{1..n} \<inter> seg_parent ` set live = {}" using each by fastforce
  then have "card (dom taum) = card {1..n} + card (seg_parent ` set live)"
    unfolding dtau by (intro card_Un_disjoint) auto
  also have "card (seg_parent ` set live) = length live"
    using dist by (metis distinct_card length_map set_map)
  finally have "card (dom taum) = n + length live" by simp
  with c1 show ?thesis by simp
qed

lemma fold_err_build_node_fields:
  "fold_err build_node vs s = Inr s' \<Longrightarrow>
   ng_time s' = ng_time s \<and> ng_parent s' = ng_parent s \<and>
   ng_branch_length s' = ng_branch_length s \<and> ng_children s' = ng_children s \<and>
   ng_root s' = ng_root s \<and> ng_sample_size s' = ng_sample_size s \<and>
   ng_precision s' = ng_precision s"
proof (induction vs arbitrary: s)
  case Nil
  then show ?case by simp
next
  case (Cons v vs)
  then show ?case
    by (cases "build_node v s") (auto simp: build_node_def split: sum.splits)
qed

lemma update_subtrees_fields:
  "update_subtrees s = Inr s' \<Longrightarrow>
   ng_time s' = ng_time s \<and> ng_parent s' = ng_parent s \<and>
   ng_branch_length s' = ng_branch_length s \<and> ng_children s' = ng_children s \<and>
   ng_root s' = ng_root s \<and> ng_sample_size s' = ng_sample_size s \<and>
   ng_precision s' = ng_precision s"
  unfolding update_subtrees_def
  by (auto split: sum.splits dest: fold_err_build_node_fields)

lemma next_result:
  assumes "NewickGenerator_next fmt s d = Some (Inr (s', out))"
  shows "\<exists>s4. apply_records fmt s d = Some (Inr s4) \<and> fully_coalesced_state s4 \<and>
           update_subtrees s4 = Inr s' \<and> out = (fst d, the (fmlookup (ng_subtree s') (ng_root s'))) \<and>
           fmlookup (ng_subtree s') (ng_root s') \<noteq> None"
  using assms unfolding NewickGenerator_next_def bind_res_def
  by (auto split: option.splits sum.splits if_splits)

lemma fully_coalesced_ts_ex: "fully_coalesced ts_ex"
  unfolding fully_coalesced_def records_ts_ex
  by (simp add: rec_left_def rec_right_def ts_ex_def)

text \<open>
  Claim C3. For a valid, fully coalesced tree sequence with \<open>n\<close> samples, every
  snapshot yielded by \<^verbatim>\<open>sparse_trees\<close> has \<open>2 * n - 1\<close> nodes with a time and
  \<open>2 * n - 2\<close> nodes with a parent. \<^verbatim>\<open>NewickGenerator.next\<close> checks the same counts
  (and that of the branch lengths) on every interval: when they fail it raises an
  AssertionError, and whenever it returns they hold in the state it leaves.
\<close>

theorem fully_coalesced_node_counts:
  assumes "valid_tree_sequence ts" and "fully_coalesced ts"
  shows "(\<forall>y\<in>set (fst (sparse_trees ts)).
            int (card (dom (snapshot_tau y))) = 2 * int (ts_sample_size ts) - 1 \<and>
            int (card (dom (snapshot_pi y))) = 2 * int (ts_sample_size ts) - 2) \<and>
         (\<forall>fmt s d s4. apply_records fmt s d = Some (Inr s4) \<and> \<not> fully_coalesced_state s4 \<longrightarrow>
            NewickGenerator_next fmt s d = Some (Inl AssertionError)) \<and>
         (\<forall>fmt s d s' out. NewickGenerator_next fmt s d = Some (Inr (s', out)) \<longrightarrow>
            int (fcard (fmdom (ng_time s'))) = 2 * int (ng_sample_size s') - 1 \<and>
            int (fcard (fmdom (ng_parent s'))) = 2 * int (ng_sample_size s') - 2 \<and>
            int (fcard (fmdom (ng_branch_length s'))) = 2 * int (ng_sample_size s') - 2)"
proof (intro conjI ballI allI impI)
  fix y assume y: "y \<in> set (fst (sparse_trees ts))"
  from sparse_trees_snapshots[OF assms(1) y] obtain x live where
    x: "x \<in> insert 0 (rec_left ` set (records ts))"
    and inv: "st_inv (ts_sample_size ts) live (snapshot_pi y) (snapshot_tau y)"
    and len: "length live = length (covering x (records ts))"
    unfolding snapshot_of_def by blast
  from assms(2) x have "int (length (covering x (records ts))) = int (ts_sample_size ts) - 1"
    unfolding fully_coalesced_def covering_def list_all_iff by auto
  with len have l: "int (length live) = int (ts_sample_size ts) - 1" by simp
  from st_inv_card[OF inv] l
  show "int (card (dom (snapshot_tau y))) = 2 * int (ts_sample_size ts) - 1"
    and "int (card (dom (snapshot_pi y))) = 2 * int (ts_sample_size ts) - 2"
    by simp_all
next
  fix fmt s d s4
  assume "apply_records fmt s d = Some (Inr s4) \<and> \<not> fully_coalesced_state s4"
  then show "NewickGenerator_next fmt s d = Some (Inl AssertionError)"
    by (simp add: NewickGenerator_next_def bind_res_def)
next
  fix fmt s d s' out
  assume "NewickGenerator_next fmt s d = Some (Inr (s', out))"
  from next_result[OF this] obtain s4 where
    "fully_coalesced_state s4" "update_subtrees s4 = Inr s'" by blast
  with update_subtrees_fields[of s4 s']
  show "int (fcard (fmdom (ng_time s'))) = 2 * int (ng_sample_size s') - 1"
    and "int (fcard (fmdom (ng_parent s'))) = 2 * int (ng_sample_size s') - 2"
    and "int (fcard (fmdom (ng_branch_length s'))) = 2 * int (ng_sample_size s') - 2"
    by (simp_all add: fully_coalesced_state_def)
qed

lemma next_ts_ex_first:
  "(case NewickGenerator_next fmt3 (NewickGenerator_init 3 3)
       (4, [], [((1, 2), 4, 1), ((3, 4), 5, 2)]) of
      Some (Inr (s', out)) \<Rightarrow>
        out = (4, ''(3:2.000,(1:1.000,2:1.000):1.000);'') \<and> ng_sample_size s' = 3
    | _ \<Rightarrow> False)"
  by code_simp

theorem fully_coalesced_node_counts_witness:
  "valid_tree_sequence ts_ex \<and> fully_coalesced ts_ex \<and>
   (\<exists>y. y \<in> set (fst (sparse_trees ts_ex)) \<and> card (dom (snapshot_tau y)) = 5 \<and>
        card (dom (snapshot_pi y)) = 4) \<and>
   (\<exists>s' out. NewickGenerator_next fmt3 (NewickGenerator_init 3 3)
        (4, [], [((1, 2), 4, 1), ((3, 4), 5, 2)]) = Some (Inr (s', out)) \<and>
      fcard (fmdom (ng_time s')) = 5 \<and> fcard (fmdom (ng_parent s')) = 4)"
proof -
  note th = fully_coalesced_node_counts[OF valid_ts_ex fully_coalesced_ts_ex]
  from sparse_trees_ts_ex_two obtain y1 y2 where "fst (sparse_trees ts_ex) = [y1, y2]" by blast
  then have y1: "y1 \<in> set (fst (sparse_trees ts_ex))" by simp
  with th have "int (card (dom (snapshot_tau y1))) = 2 * int (ts_sample_size ts_ex) - 1"
    "int (card (dom (snapshot_pi y1))) = 2 * int (ts_sample_size ts_ex) - 2" by blast+
  then have a: "card (dom (snapshot_tau y1)) = 5 \<and> card (dom (snapshot_pi y1)) = 4"
    by (simp add: ts_ex_def)
  from next_ts_ex_first obtain s' out where
    n: "NewickGenerator_next fmt3 (NewickGenerator_init 3 3)
        (4, [], [((1, 2), 4, 1), ((3, 4), 5, 2)]) = Some (Inr (s', out))" "ng_sample_size s' = 3"
    by (auto split: option.splits sum.splits)
  with th have "int (fcard (fmdom (ng_time s'))) = 2 * int (ng_sample_size s') - 1"
    "int (fcard (fmdom (ng_parent s'))) = 2 * int (ng_sample_size s') - 2" by blast+
  with n(2) have b: "fcard (fmdom (ng_time s')) = 5 \<and> fcard (fmdom (ng_parent s')) = 4" by simp
  from valid_ts_ex fully_coalesced_ts_ex a b y1 n(1) show ?thesis by blast
qed

subsection \<open>The haplotype generator\<close>

lemma hg_out_child_keeps:
  "hg_out_child j hg = Inr hg' \<Longrightarrow>
   hg_haplotype hg' = hg_haplotype hg \<and> hg_num_segregating_sites hg' = hg_num_segregating_sites hg \<and>
   hg_scaled_mutation_rate hg' = hg_scaled_mutation_rate hg \<and> hg_sample_size hg' = hg_sample_size hg"
  by (auto simp: hg_out_child_def split: option.splits)

lemma hg_out_record_keeps:
  "hg_out_record e hg = Inr hg' \<Longrightarrow>
   hg_haplotype hg' = hg_haplotype hg \<and> hg_num_segregating_sites hg' = hg_num_segregating_sites hg \<and>
   hg_scaled_mutation_rate hg' = hg_scaled_mutation_rate hg \<and> hg_sample_size hg' = hg_sample_size hg"
  by (cases e) (auto simp: hg_out_record_def del_fm_def split: sum.splits if_splits
      dest!: hg_out_child_keeps)

lemma hg_length_record_keeps:
  "hg_length_record e hg = Inr hg' \<Longrightarrow>
   hg_haplotype hg' = hg_haplotype hg \<and> hg_num_segregating_sites hg' = hg_num_segregating_sites hg \<and>
   hg_scaled_mutation_rate hg' = hg_scaled_mutation_rate hg \<and> hg_sample_size hg' = hg_sample_size hg"
  by (cases e) (auto simp: hg_length_record_def hg_length_child_def split: sum.splits option.splits)

lemma hg_in_record_keeps:
  "hg_haplotype (hg_in_record e hg) = hg_haplotype hg \<and>
   hg_num_segregating_sites (hg_in_record e hg) = hg_num_segregating_sites hg \<and>
   hg_scaled_mutation_rate (hg_in_record e hg) = hg_scaled_mutation_rate hg \<and>
   hg_sample_size (hg_in_record e hg) = hg_sample_size hg"
  by (cases e) (auto simp: hg_in_record_def)

lemma fold_err_keeps:
  assumes "\<And>x s s'. f x s = Inr s' \<Longrightarrow> P s' = P s"
  shows "fold_err f xs s = Inr s' \<Longrightarrow> P s' = P s"
proof (induction xs arbitrary: s)
  case Nil
  then show ?case by simp
next
  case (Cons x xs)
  then show ?case by (cases "f x s") (auto dest: assms)
qed

lemma fold_keeps:
  assumes "\<And>x s. P (f x s) = P s"
  shows "P (fold f xs s) = P s"
  by (induction xs arbitrary: s) (simp_all add: assms)

definition hg_view :: "'g haplotype_generator \<Rightarrow> char list list \<times> nat \<times> real \<times> nat" where
  "hg_view hg = (hg_haplotype hg, hg_num_segregating_sites hg, hg_scaled_mutation_rate hg,
     hg_sample_size hg)"

text \<open>
  Claim C7 at the input where it fails: no seed given. The fresh seed is
  recorded, but the generator is made from \<^verbatim>\<open>None\<close>, the argument, so it is not
  the generator that a second instance gets from the recorded seed.
\<close>

theorem fresh_seed_is_recorded_but_not_used:
  "hg_random_seed (HaplotypeGenerator_attrs lib ts rate None) = randint lib \<and>
   hg_rng (HaplotypeGenerator_attrs lib ts rate None) = RandomState lib None \<and>
   hg_rng (HaplotypeGenerator_attrs lib ts rate (Some (randint lib))) =
     RandomState lib (Some (randint lib))"
  by (simp add: HaplotypeGenerator_attrs_def)

subsection \<open>Mutations and the leaves below them\<close>

lemma mark_column_length [simp]: "length (mark_column L col hap) = length hap"
  by (simp add: mark_column_def)

lemma mark_column_row_length [simp]:
  "r < length hap \<Longrightarrow> length (mark_column L col hap ! r) = length (hap ! r)"
  by (simp add: mark_column_def)

lemma mark_column_nth:
  "r < length hap \<Longrightarrow> c < length (hap ! r) \<Longrightarrow>
   mark_column L col hap ! r ! c = (if c = col \<and> Suc r \<in> L then CHR ''1'' else hap ! r ! c)"
  by (simp add: mark_column_def nth_list_update)

lemma mark_column_twice:
  "mark_column A col (mark_column B col hap) = mark_column (A \<union> B) col hap"
  by (rule nth_equalityI) (auto simp: mark_column_def)

lemma set_cell_sample:
  assumes "1 \<le> u" and "u \<le> length hap" and "\<forall>r<length hap. col < length (hap ! r)"
  shows "set_cell u col hap = Inr (mark_column {u} col hap)"
proof -
  from assms have r: "u - 1 < length hap" "u \<noteq> 0" "hap \<noteq> []" by auto
  have "hap[u - 1 := (hap ! (u - 1))[col := CHR ''1'']] = mark_column {u} col hap"
  proof (rule nth_equalityI)
    show "length (hap[u - 1 := (hap ! (u - 1))[col := CHR ''1'']]) = length (mark_column {u} col hap)"
      by simp
  next
    fix i assume "i < length (hap[u - 1 := (hap ! (u - 1))[col := CHR ''1'']])"
    then have i: "i < length hap" by simp
    show "hap[u - 1 := (hap ! (u - 1))[col := CHR ''1'']] ! i = mark_column {u} col hap ! i"
    proof (cases "i = u - 1")
      case True
      with r i show ?thesis by (simp add: mark_column_def)
    next
      case False
      with r i have "Suc i \<noteq> u" by auto
      with False i show ?thesis by (simp add: mark_column_def)
    qed
  qed
  with r assms(3) show ?thesis by (simp add: set_cell_def Let_def not_le)
qed

lemma mutate_below_tree:
  assumes "leaves_below children n v ls"
    and "length hap = n" and "\<forall>r<length hap. col < length (hap ! r)"
  shows "mutate_below children n col (v # st) hap =
         mutate_below children n col st (mark_column (set ls) col hap)"
  using assms
proof (induction arbitrary: st hap rule: leaves_below.induct)
  case (leaf u)
  then have "set_cell u col hap = Inr (mark_column {u} col hap)"
    by (intro set_cell_sample) auto
  with leaf show ?case by (subst mutate_below.simps) simp
next
  case (inner u c0 c1 as bs)
  have "mutate_below children n col (u # st) hap = mutate_below children n col (c1 # c0 # st) hap"
    using inner.hyps(1,2) by (subst mutate_below.simps) simp
  also have "\<dots> = mutate_below children n col (c0 # st) (mark_column (set bs) col hap)"
    using inner.prems by (intro inner.IH(2)) auto
  also have "\<dots> = mutate_below children n col st
      (mark_column (set as) col (mark_column (set bs) col hap))"
    using inner.prems by (intro inner.IH(1)) auto
  finally show ?case by (simp add: mark_column_twice)
qed

lemma apply_rare_mutations_marks:
  assumes "length (hg_haplotype hg) = hg_sample_size hg"
    and "\<forall>r<hg_sample_size hg. length (hg_haplotype hg ! r) = m"
    and "hg_num_segregating_sites hg + length branches \<le> m"
    and "\<forall>r<hg_sample_size hg. \<forall>c. hg_num_segregating_sites hg \<le> c \<and> c < m \<longrightarrow>
           hg_haplotype hg ! r ! c = CHR ''0''"
    and "\<forall>i<length branches.
           leaves_below (hg_children hg) (hg_sample_size hg) (branches ! i) (leaves i)"
  shows "\<exists>hg'. apply_rare_mutations branches hg = Some (Inr hg') \<and>
     hg_num_segregating_sites hg' = hg_num_segregating_sites hg + length branches \<and>
     length (hg_haplotype hg') = hg_sample_size hg \<and>
     (\<forall>r<hg_sample_size hg. length (hg_haplotype hg' ! r) = m) \<and>
     (\<forall>i<length branches. \<forall>r<hg_sample_size hg.
        hg_haplotype hg' ! r ! (hg_num_segregating_sites hg + i) =
          (if Suc r \<in> set (leaves i) then CHR ''1'' else CHR ''0'')) \<and>
     (\<forall>r<hg_sample_size hg. \<forall>c<m.
        c < hg_num_segregating_sites hg \<or> hg_num_segregating_sites hg + length branches \<le> c \<longrightarrow>
        hg_haplotype hg' ! r ! c = hg_haplotype hg ! r ! c) \<and>
     hg_children hg' = hg_children hg \<and> hg_sample_size hg' = hg_sample_size hg \<and>
     hg_max_segregating_sites hg' = hg_max_segregating_sites hg"
  using assms
proof (induction branches arbitrary: hg leaves)
  case Nil
  then show ?case by simp
next
  case (Cons v bs)
  let ?n = "hg_sample_size hg" and ?s = "hg_num_segregating_sites hg"
  let ?hap = "hg_haplotype hg"
  let ?hap1 = "mark_column (set (leaves 0)) ?s ?hap"
  let ?hg1 = "hg\<lparr>hg_haplotype := ?hap1, hg_num_segregating_sites := Suc ?s\<rparr>"
  from Cons.prems(3) have sm: "?s < m" by simp
  from Cons.prems(5) have t0: "leaves_below (hg_children hg) ?n v (leaves 0)" by auto
  have cols: "\<forall>r<length ?hap. ?s < length (?hap ! r)"
    using Cons.prems(1,2) sm by simp
  have "mutate_below (hg_children hg) ?n ?s [v] ?hap =
        mutate_below (hg_children hg) ?n ?s [] ?hap1"
    by (rule mutate_below_tree[OF t0 Cons.prems(1) cols])
  also have "\<dots> = Some (Inr ?hap1)" by (subst mutate_below.simps) simp
  finally have mb: "mutate_below (hg_children hg) ?n ?s [v] ?hap = Some (Inr ?hap1)" .
  have step: "apply_rare_mutations (v # bs) hg = apply_rare_mutations bs ?hg1"
    by (simp add: mb)
  have nth1: "?hap1 ! r ! c = (if c = ?s \<and> Suc r \<in> set (leaves 0) then CHR ''1'' else ?hap ! r ! c)"
    if "r < ?n" "c < m" for r c
    using that Cons.prems(1,2) by (intro mark_column_nth) auto
  have p1: "length (hg_haplotype ?hg1) = hg_sample_size ?hg1" using Cons.prems(1) by simp
  have p2: "\<forall>r<hg_sample_size ?hg1. length (hg_haplotype ?hg1 ! r) = m"
    using Cons.prems(1,2) by simp
  have p3: "hg_num_segregating_sites ?hg1 + length bs \<le> m" using Cons.prems(3) by simp
  have p4: "\<forall>r<hg_sample_size ?hg1. \<forall>c. hg_num_segregating_sites ?hg1 \<le> c \<and> c < m \<longrightarrow>
           hg_haplotype ?hg1 ! r ! c = CHR ''0''"
    using Cons.prems(4) nth1 by simp
  have p5: "\<forall>i<length bs. leaves_below (hg_children ?hg1) (hg_sample_size ?hg1) (bs ! i)
      ((\<lambda>i. leaves (Suc i)) i)"
    using Cons.prems(5) by auto
  from Cons.IH[OF p1 p2 p3 p4 p5] obtain hg' where
    r: "apply_rare_mutations bs ?hg1 = Some (Inr hg')"
       "hg_num_segregating_sites hg' = Suc ?s + length bs"
       "length (hg_haplotype hg') = ?n"
       "\<forall>r<?n. length (hg_haplotype hg' ! r) = m"
       "\<forall>i<length bs. \<forall>r<?n. hg_haplotype hg' ! r ! (Suc ?s + i) =
          (if Suc r \<in> set (leaves (Suc i)) then CHR ''1'' else CHR ''0'')"
       "\<forall>r<?n. \<forall>c<m. c < Suc ?s \<or> Suc ?s + length bs \<le> c \<longrightarrow>
          hg_haplotype hg' ! r ! c = ?hap1 ! r ! c"
       "hg_children hg' = hg_children hg" "hg_sample_size hg' = ?n"
       "hg_max_segregating_sites hg' = hg_max_segregating_sites hg"
    by auto
  have col: "hg_haplotype hg' ! r ! (?s + i) =
          (if Suc r \<in> set (leaves i) then CHR ''1'' else CHR ''0'')"
    if "i < length (v # bs)" "r < ?n" for i r
  proof (cases i)
    case 0
    from r(6) that(2) sm have "hg_haplotype hg' ! r ! ?s = ?hap1 ! r ! ?s" by simp
    also have "\<dots> = (if Suc r \<in> set (leaves 0) then CHR ''1'' else ?hap ! r ! ?s)"
      using nth1[OF that(2) sm] by simp
    also have "?hap ! r ! ?s = CHR ''0''" using Cons.prems(4) that(2) sm by simp
    finally show ?thesis using 0 by simp
  next
    case (Suc j)
    with that r(5) show ?thesis by simp
  qed
  have old: "hg_haplotype hg' ! r ! c = ?hap ! r ! c"
    if "r < ?n" "c < m" "c < ?s \<or> ?s + length (v # bs) \<le> c" for r c
  proof -
    from that r(6) have "hg_haplotype hg' ! r ! c = ?hap1 ! r ! c" by auto
    also have "\<dots> = ?hap ! r ! c" using nth1[OF that(1,2)] that(3) by auto
    finally show ?thesis .
  qed
  show ?case
    unfolding step using r(1,2,3,4,7,8,9) col old by (intro exI[of _ hg']) simp
qed

lemma grow_matrix_nth:
  assumes "r < rows" and "length (old ! r) = k" and "k \<le> cols"
  shows "length (grow_matrix rows k cols old ! r) = cols"
    and "c < cols \<Longrightarrow>
         grow_matrix rows k cols old ! r ! c = (if c < k then old ! r ! c else CHR ''0'')"
  using assms by (simp_all add: grow_matrix_def nth_append)

text \<open>
  Claim C5. Take a generator whose matrix has one row per sample and
  \<^verbatim>\<open>_max_segregating_sites\<close> columns, all \<^verbatim>\<open>'0'\<close> from column
  \<^verbatim>\<open>_num_segregating_sites\<close> on (the matrix is allocated so, and this theorem shows
  that \<^verbatim>\<open>_apply_mutations\<close> leaves it so), and drawn branches whose subtrees are
  finite trees over the samples. Then \<^verbatim>\<open>_apply_mutations\<close> returns; the \<open>i\<close>-th
  mutation gets the column \<^verbatim>\<open>_num_segregating_sites + i\<close> of its own, in which the
  row of a sample holds \<^verbatim>\<open>'1'\<close> when the sample is a leaf below the branch and
  \<^verbatim>\<open>'0'\<close> otherwise; the columns of earlier sites are unchanged.
\<close>

theorem mutation_marks_the_leaves_below:
  assumes "length (hg_haplotype hg) = hg_sample_size hg"
    and "\<forall>r<hg_sample_size hg. length (hg_haplotype hg ! r) = hg_max_segregating_sites hg"
    and "hg_num_segregating_sites hg \<le> hg_max_segregating_sites hg"
    and "\<forall>r<hg_sample_size hg. \<forall>c. hg_num_segregating_sites hg \<le> c \<and>
           c < hg_max_segregating_sites hg \<longrightarrow> hg_haplotype hg ! r ! c = CHR ''0''"
    and "\<forall>i<length branches.
           leaves_below (hg_children hg) (hg_sample_size hg) (branches ! i) (leaves i)"
  shows "\<exists>hg'. apply_mutations branches hg = Some (Inr hg') \<and>
     hg_num_segregating_sites hg' = hg_num_segregating_sites hg + length branches \<and>
     (\<forall>i<length branches. \<forall>u. 1 \<le> u \<and> u \<le> hg_sample_size hg \<longrightarrow>
        hg_haplotype hg' ! (u - 1) ! (hg_num_segregating_sites hg + i) =
          (if u \<in> set (leaves i) then CHR ''1'' else CHR ''0'')) \<and>
     (\<forall>r<hg_sample_size hg. \<forall>c<hg_num_segregating_sites hg.
        hg_haplotype hg' ! r ! c = hg_haplotype hg ! r ! c) \<and>
     hg_sample_size hg' = hg_sample_size hg \<and>
     length (hg_haplotype hg') = hg_sample_size hg' \<and>
     (\<forall>r<hg_sample_size hg'. length (hg_haplotype hg' ! r) = hg_max_segregating_sites hg') \<and>
     hg_num_segregating_sites hg' \<le> hg_max_segregating_sites hg' \<and>
     (\<forall>r<hg_sample_size hg'. \<forall>c. hg_num_segregating_sites hg' \<le> c \<and>
           c < hg_max_segregating_sites hg' \<longrightarrow> hg_haplotype hg' ! r ! c = CHR ''0'')"
proof -
  let ?n = "hg_sample_size hg" and ?s = "hg_num_segregating_sites hg"
  let ?k = "hg_max_segregating_sites hg" and ?hap = "hg_haplotype hg"
  let ?new = "?s + length branches"
  let ?cols = "max (2 * ?k) (?new + 1)"
  define hg0 where "hg0 = (if ?k \<le> ?new
      then hg\<lparr>hg_max_segregating_sites := ?cols,
              hg_haplotype := grow_matrix ?n ?k ?cols ?hap\<rparr>
      else hg)"
  define m where "m = hg_max_segregating_sites hg0"
  have am: "apply_mutations branches hg = apply_rare_mutations branches hg0"
    by (simp add: apply_mutations_def hg0_def Let_def)
  have same: "hg_sample_size hg0 = ?n" "hg_num_segregating_sites hg0 = ?s"
    "hg_children hg0 = hg_children hg"
    by (simp_all add: hg0_def)
  have km: "?k \<le> m" and room: "?new < m" by (auto simp: m_def hg0_def)
  have q1: "length (hg_haplotype hg0) = ?n"
    using assms(1) by (simp add: hg0_def grow_matrix_def)
  have q2: "length (hg_haplotype hg0 ! r) = m" if "r < ?n" for r
    using that assms(2) grow_matrix_nth(1)[of r ?n ?hap ?k ?cols]
    by (auto simp: m_def hg0_def)
  have q0: "hg_haplotype hg0 ! r ! c = (if c < ?k then ?hap ! r ! c else CHR ''0'')"
    if "r < ?n" "c < m" for r c
    using that assms(2) grow_matrix_nth(2)[of r ?n ?hap ?k ?cols c]
    by (auto simp: m_def hg0_def)
  have p1: "length (hg_haplotype hg0) = hg_sample_size hg0" using q1 same by simp
  have p2: "\<forall>r<hg_sample_size hg0. length (hg_haplotype hg0 ! r) = m" using q2 same by simp
  have p3: "hg_num_segregating_sites hg0 + length branches \<le> m" using room same by simp
  have p4: "\<forall>r<hg_sample_size hg0. \<forall>c. hg_num_segregating_sites hg0 \<le> c \<and> c < m \<longrightarrow>
           hg_haplotype hg0 ! r ! c = CHR ''0''"
    using q0 assms(4) same by simp
  have p5: "\<forall>i<length branches.
           leaves_below (hg_children hg0) (hg_sample_size hg0) (branches ! i) (leaves i)"
    using assms(5) same by simp
  from apply_rare_mutations_marks[OF p1 p2 p3 p4 p5] obtain hg' where
    r: "apply_rare_mutations branches hg0 = Some (Inr hg')"
       "hg_num_segregating_sites hg' = ?s + length branches"
       "length (hg_haplotype hg') = ?n"
       "\<forall>r<?n. length (hg_haplotype hg' ! r) = m"
       "\<forall>i<length branches. \<forall>r<?n. hg_haplotype hg' ! r ! (?s + i) =
          (if Suc r \<in> set (leaves i) then CHR ''1'' else CHR ''0'')"
       "\<forall>r<?n. \<forall>c<m. c < ?s \<or> ?s + length branches \<le> c \<longrightarrow>
          hg_haplotype hg' ! r ! c = hg_haplotype hg0 ! r ! c"
       "hg_sample_size hg' = ?n" "hg_max_segregating_sites hg' = m"
    unfolding same m_def by blast
  have c1: "hg_haplotype hg' ! (u - 1) ! (?s + i) =
          (if u \<in> set (leaves i) then CHR ''1'' else CHR ''0'')"
    if "i < length branches" "1 \<le> u \<and> u \<le> ?n" for i u
  proof -
    from that(2) have "u - 1 < ?n" "Suc (u - 1) = u" by auto
    with r(5) that(1) show ?thesis by metis
  qed
  have c2: "hg_haplotype hg' ! r ! c = ?hap ! r ! c" if "r < ?n" "c < ?s" for r c
  proof -
    from that assms(3) km have "c < m" "c < ?k" by auto
    with r(6) that q0[of r c] show ?thesis by simp
  qed
  have c3: "hg_haplotype hg' ! r ! c = CHR ''0''"
    if "r < ?n" "?s + length branches \<le> c" "c < m" for r c
  proof -
    from r(6) that have "hg_haplotype hg' ! r ! c = hg_haplotype hg0 ! r ! c" by simp
    also have "\<dots> = CHR ''0''" using p4 that same by simp
    finally show ?thesis .
  qed
  show ?thesis
    unfolding am using r(1,2,3,4,7,8) c1 c2 c3 room
    by (intro exI[of _ hg']) simp
qed

lemma leaves_below_hg_ex:
  "leaves_below (hg_children hg_small) 3 4 [1, 2]" "leaves_below (hg_children hg_small) 3 3 [3]"
proof -
  have c: "fmlookup (hg_children hg_small) 4 = Some (1, 2)"
    by (simp add: hg_small_def hg_ex_def)
  have "leaves_below (hg_children hg_small) 3 4 ([1] @ [2])"
    by (rule leaves_below.inner[OF _ c]) (simp_all add: leaves_below.leaf)
  thus "leaves_below (hg_children hg_small) 3 4 [1, 2]" by simp
  show "leaves_below (hg_children hg_small) 3 3 [3]"
    by (simp add: leaves_below.leaf)
qed

theorem mutation_marks_the_leaves_below_witness:
  "\<exists>hg'. apply_mutations [4, 3] hg_small = Some (Inr hg') \<and>
     hg_num_segregating_sites hg' = 2 \<and>
     map (\<lambda>r. take 2 (hg_haplotype hg' ! r)) [0, 1, 2] = [''10'', ''10'', ''01'']"
proof -
  let ?leaves = "\<lambda>i::nat. if i = 0 then [1, 2] else [3::nat]"
  have f: "hg_sample_size hg_small = 3" "hg_num_segregating_sites hg_small = 0"
    "hg_max_segregating_sites hg_small = 1" "hg_haplotype hg_small = zero_matrix 3 1"
    by (simp_all add: hg_small_def hg_ex_def)
  have z: "zero_matrix 3 1 = [''0'', ''0'', ''0'']"
    by (simp add: zero_matrix_def numeral_3_eq_3)
  have a1: "length (hg_haplotype hg_small) = hg_sample_size hg_small"
    unfolding f z by simp
  have a2: "\<forall>r<hg_sample_size hg_small.
      length (hg_haplotype hg_small ! r) = hg_max_segregating_sites hg_small"
    unfolding f z by (simp add: less_Suc_eq numeral_3_eq_3)
  have a3: "hg_num_segregating_sites hg_small \<le> hg_max_segregating_sites hg_small"
    by (simp add: f)
  have a4: "\<forall>r<hg_sample_size hg_small. \<forall>c. hg_num_segregating_sites hg_small \<le> c \<and>
           c < hg_max_segregating_sites hg_small \<longrightarrow> hg_haplotype hg_small ! r ! c = CHR ''0''"
    unfolding f z by (simp add: less_Suc_eq numeral_3_eq_3)
  have a5: "\<forall>i<length [4, 3::nat]. leaves_below (hg_children hg_small)
      (hg_sample_size hg_small) ([4, 3] ! i) (?leaves i)"
    using leaves_below_hg_ex by (simp add: f less_Suc_eq)
  from mutation_marks_the_leaves_below[OF a1 a2 a3 a4 a5] obtain hg' where
    r: "apply_mutations [4, 3] hg_small = Some (Inr hg')"
       "hg_num_segregating_sites hg' = 2"
       "\<forall>i<2. \<forall>u. 1 \<le> u \<and> u \<le> 3 \<longrightarrow> hg_haplotype hg' ! (u - 1) ! i =
          (if u \<in> set (?leaves i) then CHR ''1'' else CHR ''0'')"
       "\<forall>r<3. length (hg_haplotype hg' ! r) = hg_max_segregating_sites hg'"
       "2 \<le> hg_max_segregating_sites hg'"
    by (auto simp: f)
  have cell: "hg_haplotype hg' ! (u - 1) ! i =
          (if u \<in> set (?leaves i) then CHR ''1'' else CHR ''0'')"
    if "i < 2" "1 \<le> u" "u \<le> 3" for i u
    using r(3) that by blast
  have row: "take 2 (hg_haplotype hg' ! r) = [hg_haplotype hg' ! r ! 0, hg_haplotype hg' ! r ! 1]"
    if "r < 3" for r
  proof -
    from r(4,5) that have "2 \<le> length (hg_haplotype hg' ! r)" by simp
    hence "0 < length (hg_haplotype hg' ! r)" "Suc 0 < length (hg_haplotype hg' ! r)" by auto
    thus ?thesis
      by (simp add: numeral_2_eq_2 take_Suc_conv_app_nth)
  qed
  have "take 2 (hg_haplotype hg' ! 0) = ''10''"
    using cell[of 0 1] cell[of 1 1] row[of 0] by simp
  moreover have "take 2 (hg_haplotype hg' ! 1) = ''10''"
    using cell[of 0 2] cell[of 1 2] row[of 1] by simp
  moreover have "take 2 (hg_haplotype hg' ! 2) = ''01''"
    using cell[of 0 3] cell[of 1 3] row[of 2] by simp
  ultimately show ?thesis using r(1,2) by simp
qed

subsection \<open>The cached Newick strings\<close>




lemma ds_ex_valid: "valid_diffs 3 fmempty ds_ex"
  by code_simp

lemma ds_ex_diffs: "diffs ts_ex False = (ds_ex, Exhausted)"
  by code_simp




lemma free_node_iff: "free_node T a \<longleftrightarrow> (\<forall>p. \<not> child_of T a p)"
  by (auto simp: free_node_def child_of_def fmpred_iff)


lemma cache_core_fields [simp]:
  "cache_core s0 (s\<lparr>ng_children := c\<rparr>) = cache_core s0 s"
  "cache_core s0 (s\<lparr>ng_time := t\<rparr>) = cache_core s0 s"
  "cache_core s0 (s\<lparr>ng_root := r\<rparr>) = cache_core s0 s"
  by (simp_all add: cache_core_def)










subsection \<open>The haplotype generator on a valid diff stream\<close>

lemma child_of_drop:
  assumes "tree_ok n T" and "fmlookup T p = Some (a, b)"
  shows "child_of (fmdrop p T) j q \<longleftrightarrow> child_of T j q \<and> j \<noteq> a \<and> j \<noteq> b"
proof
  assume "child_of (fmdrop p T) j q"
  then have q: "q \<noteq> p" "child_of T j q" by (auto simp: child_of_def split: if_splits)
  have "child_of T a p" "child_of T b p" using assms(2) by (auto simp: child_of_def)
  with q assms(1) show "child_of T j q \<and> j \<noteq> a \<and> j \<noteq> b" unfolding tree_ok_def by blast
next
  assume h: "child_of T j q \<and> j \<noteq> a \<and> j \<noteq> b"
  with assms(2) have "q \<noteq> p" by (auto simp: child_of_def)
  with h show "child_of (fmdrop p T) j q" by (auto simp: child_of_def)
qed

lemma child_of_upd:
  assumes "fmlookup T p = None"
  shows "child_of (fmupd p (a, b) T) j q \<longleftrightarrow> child_of T j q \<or> (q = p \<and> (j = a \<or> j = b))"
  using assms by (auto simp: child_of_def)

lemma tree_ok_drop:
  assumes "tree_ok n T" and "fmlookup T p = Some (a, b)"
  shows "tree_ok n (fmdrop p T)"
proof -
  have A: "n < q \<and> c0 \<noteq> c1" if "fmlookup (fmdrop p T) q = Some (c0, c1)" for q c0 c1
  proof -
    from that have "fmlookup T q = Some (c0, c1)" by (auto split: if_splits)
    with assms(1) show ?thesis unfolding tree_ok_def by blast
  qed
  have B: "q = q'" if "child_of (fmdrop p T) j q \<and> child_of (fmdrop p T) j q'" for j q q'
  proof -
    from that have "child_of T j q \<and> child_of T j q'" using child_of_drop[OF assms] by blast
    with assms(1) show ?thesis unfolding tree_ok_def by blast
  qed
  from A B show ?thesis unfolding tree_ok_def by blast
qed

lemma tree_ok_upd:
  assumes "tree_ok n T" and "n < p" and "fmlookup T p = None" and "a \<noteq> b"
    and "free_node T a" and "free_node T b"
  shows "tree_ok n (fmupd p (a, b) T)"
proof -
  have A: "n < q \<and> c0 \<noteq> c1" if "fmlookup (fmupd p (a, b) T) q = Some (c0, c1)" for q c0 c1
    using that assms(1,2,4) unfolding tree_ok_def by (cases "q = p") auto
  have na: "\<not> child_of T a r" and nb: "\<not> child_of T b r" for r
    using assms(5,6) unfolding free_node_iff by blast+
  have B: "q = q'"
    if h: "child_of (fmupd p (a, b) T) j q \<and> child_of (fmupd p (a, b) T) j q'" for j q q'
  proof -
    from h have "(child_of T j q \<or> (q = p \<and> (j = a \<or> j = b))) \<and>
        (child_of T j q' \<or> (q' = p \<and> (j = a \<or> j = b)))"
      unfolding child_of_upd[OF assms(3)] .
    with na nb assms(1) show "q = q'" unfolding tree_ok_def by blast
  qed
  from A B show ?thesis unfolding tree_ok_def by blast
qed

lemma remove_records_tree_ok:
  "remove_records outs T = Some T1 \<Longrightarrow> tree_ok n T \<Longrightarrow> tree_ok n T1"
proof (induction outs arbitrary: T)
  case Nil
  then show ?case by simp
next
  case (Cons e outs)
  obtain a b p t where e: "e = ((a, b), p, t)" by (cases e) auto
  from Cons.prems(1) have T: "fmlookup T p = Some (a, b)"
    and rest: "remove_records outs (fmdrop p T) = Some T1"
    unfolding e by (auto split: if_splits)
  from Cons.IH[OF rest tree_ok_drop[OF Cons.prems(2) T]] show ?case .
qed

lemma insert_records_tree_ok:
  "insert_records n ins T = Some T2 \<Longrightarrow> tree_ok n T \<Longrightarrow> tree_ok n T2"
proof (induction ins arbitrary: T)
  case Nil
  then show ?case by simp
next
  case (Cons e ins)
  obtain a b p t where e: "e = ((a, b), p, t)" by (cases e) auto
  from Cons.prems(1) have f: "n < p" "fmlookup T p = None" "a \<noteq> b" "free_node T a" "free_node T b"
    and rest: "insert_records n ins (fmupd p (a, b) T) = Some T2"
    unfolding e by (auto split: if_splits)
  from Cons.IH[OF rest tree_ok_upd[OF Cons.prems(2) f]] show ?case .
qed

lemma insert_records_children:
  "insert_records n ins T = Some T2 \<Longrightarrow>
   (\<forall>q. fmlookup T2 q \<noteq> None \<longleftrightarrow>
        fmlookup T q \<noteq> None \<or> (\<exists>a b t. ((a, b), q, t) \<in> set ins)) \<and>
   (\<forall>j q. child_of T2 j q \<longleftrightarrow>
        child_of T j q \<or> (\<exists>a b t. ((a, b), q, t) \<in> set ins \<and> (j = a \<or> j = b)))"
proof (induction ins arbitrary: T)
  case Nil
  then show ?case by simp
next
  case (Cons e ins)
  obtain a b p t where e: "e = ((a, b), p, t)" by (cases e) auto
  from Cons.prems(1) have f: "fmlookup T p = None"
    and rest: "insert_records n ins (fmupd p (a, b) T) = Some T2"
    unfolding e by (auto split: if_splits)
  note ih = Cons.IH[OF rest]
  have 1: "fmlookup T2 q \<noteq> None \<longleftrightarrow>
        fmlookup T q \<noteq> None \<or> (\<exists>a' b' t'. ((a', b'), q, t') \<in> set (e # ins))" for q
  proof -
    have "fmlookup T2 q \<noteq> None \<longleftrightarrow> fmlookup (fmupd p (a, b) T) q \<noteq> None \<or>
        (\<exists>a' b' t'. ((a', b'), q, t') \<in> set ins)"
      using ih by blast
    also have "\<dots> \<longleftrightarrow> fmlookup T q \<noteq> None \<or> q = p \<or> (\<exists>a' b' t'. ((a', b'), q, t') \<in> set ins)"
      by (cases "q = p") auto
    also have "\<dots> \<longleftrightarrow> fmlookup T q \<noteq> None \<or> (\<exists>a' b' t'. ((a', b'), q, t') \<in> set (e # ins))"
      unfolding e by simp blast
    finally show ?thesis .
  qed
  have 2: "child_of T2 j q \<longleftrightarrow>
        child_of T j q \<or> (\<exists>a' b' t'. ((a', b'), q, t') \<in> set (e # ins) \<and> (j = a' \<or> j = b'))"
    for j q
  proof -
    have "child_of T2 j q \<longleftrightarrow> child_of (fmupd p (a, b) T) j q \<or>
        (\<exists>a' b' t'. ((a', b'), q, t') \<in> set ins \<and> (j = a' \<or> j = b'))"
      using ih by blast
    also have "\<dots> \<longleftrightarrow> child_of T j q \<or> (q = p \<and> (j = a \<or> j = b)) \<or>
        (\<exists>a' b' t'. ((a', b'), q, t') \<in> set ins \<and> (j = a' \<or> j = b'))"
      unfolding child_of_upd[OF f] by blast
    also have "\<dots> \<longleftrightarrow> child_of T j q \<or>
        (\<exists>a' b' t'. ((a', b'), q, t') \<in> set (e # ins) \<and> (j = a' \<or> j = b'))"
      unfolding e by simp blast
    finally show ?thesis .
  qed
  from 1 2 show ?case by blast
qed


lemma complete_treeD:
  "complete_tree n T \<Longrightarrow> child_of T j p \<Longrightarrow> (1 \<le> j \<and> j \<le> n) \<or> fmlookup T j \<noteq> None"
  unfolding complete_tree_def child_of_def fmpred_iff by fastforce

lemma hg_out_record_total:
  assumes m: "hg_matches hg T" and ok: "tree_ok (hg_sample_size hg) T"
    and T: "fmlookup T p = Some (a, b)"
  shows "\<exists>hg'. hg_out_record ((a, b), p, t) hg = Inr hg' \<and> hg_matches hg' (fmdrop p T) \<and>
           hg_sample_size hg' = hg_sample_size hg \<and> hg_num_loci hg' = hg_num_loci hg"
proof -
  let ?bl = "hg_branch_length hg"
  from m have ch: "hg_children hg = T"
    and tm: "\<forall>j. fmlookup (hg_time hg) j \<noteq> None \<longleftrightarrow>
           (1 \<le> j \<and> j \<le> hg_sample_size hg) \<or> fmlookup T j \<noteq> None"
    and bl: "\<forall>j. map_of ?bl j \<noteq> None \<longleftrightarrow> (\<exists>q. child_of T j q)"
    unfolding hg_matches_def by blast+
  from ok T have np: "hg_sample_size hg < p" and ab: "a \<noteq> b" unfolding tree_ok_def by blast+
  have ca: "child_of T a p" and cb: "child_of T b p" using T by (auto simp: child_of_def)
  from bl ca obtain x where x: "map_of ?bl a = Some x" by fastforce
  from bl cb obtain y where "map_of ?bl b = Some y" by fastforce
  with ab have y: "map_of (AList.delete a ?bl) b = Some y" by (simp add: delete_conv')
  from tm T have tp: "fmlookup (hg_time hg) p \<noteq> None" by simp
  let ?hg' = "hg\<lparr>hg_children := fmdrop p T, hg_time := fmdrop p (hg_time hg),
      hg_total_branch_length := hg_total_branch_length hg - x - y,
      hg_branch_length := AList.delete b (AList.delete a ?bl)\<rparr>"
  have r: "hg_out_record ((a, b), p, t) hg = Inr ?hg'"
    using T tp x y by (simp add: hg_out_record_def del_fm_def hg_out_child_def ch)
  have t': "fmlookup (hg_time ?hg') j \<noteq> None \<longleftrightarrow>
           (1 \<le> j \<and> j \<le> hg_sample_size ?hg') \<or> fmlookup (fmdrop p T) j \<noteq> None" for j
    using tm np by (cases "j = p") auto
  have b': "map_of (hg_branch_length ?hg') j \<noteq> None \<longleftrightarrow> (\<exists>q. child_of (fmdrop p T) j q)" for j
  proof -
    have "map_of (hg_branch_length ?hg') j \<noteq> None \<longleftrightarrow> j \<noteq> a \<and> j \<noteq> b \<and> map_of ?bl j \<noteq> None"
      by (auto simp: delete_conv')
    also have "\<dots> \<longleftrightarrow> (\<exists>q. child_of T j q \<and> j \<noteq> a \<and> j \<noteq> b)" using bl by blast
    also have "\<dots> \<longleftrightarrow> (\<exists>q. child_of (fmdrop p T) j q)"
      unfolding child_of_drop[OF ok T] ..
    finally show ?thesis .
  qed
  have "hg_matches ?hg' (fmdrop p T)"
    unfolding hg_matches_def using t' b' by simp
  with r show ?thesis by (intro exI[of _ ?hg']) simp
qed

lemma hg_out_fold_total:
  assumes "remove_records outs T = Some T1" and "hg_matches hg T"
    and "tree_ok (hg_sample_size hg) T"
  shows "\<exists>hg1. fold_err hg_out_record outs hg = Inr hg1 \<and> hg_matches hg1 T1 \<and>
           hg_sample_size hg1 = hg_sample_size hg \<and> hg_num_loci hg1 = hg_num_loci hg"
  using assms
proof (induction outs arbitrary: T hg)
  case Nil
  then show ?case by simp
next
  case (Cons e outs)
  obtain a b p t where e: "e = ((a, b), p, t)" by (cases e) auto
  from Cons.prems(1) have T: "fmlookup T p = Some (a, b)"
    and rest: "remove_records outs (fmdrop p T) = Some T1"
    unfolding e by (auto split: if_splits)
  from hg_out_record_total[OF Cons.prems(2,3) T, of t]
  obtain hg' where r: "hg_out_record ((a, b), p, t) hg = Inr hg'" "hg_matches hg' (fmdrop p T)"
    "hg_sample_size hg' = hg_sample_size hg" "hg_num_loci hg' = hg_num_loci hg" by blast
  have ok': "tree_ok (hg_sample_size hg') (fmdrop p T)"
    using tree_ok_drop[OF Cons.prems(3) T] r(3) by simp
  from Cons.IH[OF rest r(2) ok'] r show ?case unfolding e by auto
qed

lemma hg_in_fold:
  assumes "insert_records n ins T1 = Some T2" and "hg_children hg = T1"
    and "\<forall>j. fmlookup (hg_time hg) j \<noteq> None \<longleftrightarrow>
           (1 \<le> j \<and> j \<le> hg_sample_size hg) \<or> fmlookup T1 j \<noteq> None"
  shows "hg_children (fold hg_in_record ins hg) = T2 \<and>
     (\<forall>j. fmlookup (hg_time (fold hg_in_record ins hg)) j \<noteq> None \<longleftrightarrow>
           (1 \<le> j \<and> j \<le> hg_sample_size hg) \<or> fmlookup T2 j \<noteq> None) \<and>
     hg_branch_length (fold hg_in_record ins hg) = hg_branch_length hg \<and>
     hg_sample_size (fold hg_in_record ins hg) = hg_sample_size hg \<and>
     hg_num_loci (fold hg_in_record ins hg) = hg_num_loci hg"
  using assms
proof (induction ins arbitrary: T1 hg)
  case Nil
  then show ?case by simp
next
  case (Cons e ins)
  obtain a b p t where e: "e = ((a, b), p, t)" by (cases e) auto
  let ?hg' = "hg_in_record ((a, b), p, t) hg"
  from Cons.prems(1) have rest: "insert_records n ins (fmupd p (a, b) T1) = Some T2"
    unfolding e by (auto split: if_splits)
  have f: "hg_children ?hg' = fmupd p (a, b) T1" "hg_sample_size ?hg' = hg_sample_size hg"
    "hg_branch_length ?hg' = hg_branch_length hg" "hg_num_loci ?hg' = hg_num_loci hg"
    "hg_time ?hg' = fmupd p t (hg_time hg)"
    using Cons.prems(2) by (simp_all add: hg_in_record_def)
  have t: "\<forall>j. fmlookup (hg_time ?hg') j \<noteq> None \<longleftrightarrow>
           (1 \<le> j \<and> j \<le> hg_sample_size ?hg') \<or> fmlookup (fmupd p (a, b) T1) j \<noteq> None"
    using Cons.prems(3) unfolding f by auto
  from Cons.IH[OF rest f(1) t] f show ?case unfolding e by simp
qed

lemma hg_length_fold:
  assumes "\<forall>a b p t. ((a, b), p, t) \<in> set ins \<longrightarrow>
      fmlookup (hg_time hg) a \<noteq> None \<and> fmlookup (hg_time hg) b \<noteq> None"
  shows "\<exists>hg'. fold_err hg_length_record ins hg = Inr hg' \<and>
     hg_children hg' = hg_children hg \<and> hg_time hg' = hg_time hg \<and>
     (\<forall>j. map_of (hg_branch_length hg') j \<noteq> None \<longleftrightarrow>
          map_of (hg_branch_length hg) j \<noteq> None \<or>
          (\<exists>a b p t. ((a, b), p, t) \<in> set ins \<and> (j = a \<or> j = b))) \<and>
     hg_sample_size hg' = hg_sample_size hg \<and> hg_num_loci hg' = hg_num_loci hg"
  using assms
proof (induction ins arbitrary: hg)
  case Nil
  then show ?case by simp
next
  case (Cons e ins)
  obtain a b p t where e: "e = ((a, b), p, t)" by (cases e) auto
  from Cons.prems obtain ta tb where ta: "fmlookup (hg_time hg) a = Some ta"
    and tb: "fmlookup (hg_time hg) b = Some tb"
    unfolding e by fastforce
  let ?hg' = "hg\<lparr>hg_branch_length :=
        AList.update b (t - tb) (AList.update a (t - ta) (hg_branch_length hg)),
      hg_total_branch_length := hg_total_branch_length hg + (t - ta) + (t - tb)\<rparr>"
  have r: "hg_length_record ((a, b), p, t) hg = Inr ?hg'"
    using ta tb by (simp add: hg_length_record_def hg_length_child_def)
  have p': "\<forall>a b p t. ((a, b), p, t) \<in> set ins \<longrightarrow>
      fmlookup (hg_time ?hg') a \<noteq> None \<and> fmlookup (hg_time ?hg') b \<noteq> None"
    using Cons.prems by simp
  from Cons.IH[OF p'] obtain hg2 where ih: "fold_err hg_length_record ins ?hg' = Inr hg2"
     "hg_children hg2 = hg_children ?hg'" "hg_time hg2 = hg_time ?hg'"
     "\<forall>j. map_of (hg_branch_length hg2) j \<noteq> None \<longleftrightarrow>
          map_of (hg_branch_length ?hg') j \<noteq> None \<or>
          (\<exists>a b p t. ((a, b), p, t) \<in> set ins \<and> (j = a \<or> j = b))"
     "hg_sample_size hg2 = hg_sample_size ?hg'" "hg_num_loci hg2 = hg_num_loci ?hg'"
    by blast
  have k: "map_of (hg_branch_length hg2) j \<noteq> None \<longleftrightarrow>
          map_of (hg_branch_length hg) j \<noteq> None \<or>
          (\<exists>a' b' p' t'. ((a', b'), p', t') \<in> set (e # ins) \<and> (j = a' \<or> j = b'))" for j
  proof -
    have "map_of (hg_branch_length hg2) j \<noteq> None \<longleftrightarrow>
          (j = a \<or> j = b \<or> map_of (hg_branch_length hg) j \<noteq> None) \<or>
          (\<exists>a b p t. ((a, b), p, t) \<in> set ins \<and> (j = a \<or> j = b))"
      using ih(4) by (auto simp: update_conv')
    also have "\<dots> \<longleftrightarrow> map_of (hg_branch_length hg) j \<noteq> None \<or>
          (\<exists>a' b' p' t'. ((a', b'), p', t') \<in> set (e # ins) \<and> (j = a' \<or> j = b'))"
      unfolding e by simp blast
    finally show ?thesis .
  qed
  show ?case
    using r ih(1,2,3,5,6) k unfolding e by (intro exI[of _ hg2]) simp
qed


lemma generate_step_total:
  assumes p0: "\<forall>g. fst (poisson lib g 0) = 0" and rate: "hg_scaled_mutation_rate hg = 0"
    and loci: "0 < hg_num_loci hg"
    and m: "hg_matches hg T" and ok: "tree_ok (hg_sample_size hg) T"
    and rem: "remove_records outs T = Some T1"
    and ins: "insert_records (hg_sample_size hg) ins T1 = Some T2"
    and cmp: "complete_tree (hg_sample_size hg) T2"
  shows "\<exists>hg'. generate_step lib (len, outs, ins) (hg, br, pr) = Some (Inr (hg', br, pr)) \<and>
           hg_matches hg' T2 \<and> tree_ok (hg_sample_size hg') T2 \<and> hg_view hg' = hg_view hg \<and>
           hg_num_loci hg' = hg_num_loci hg"
proof -
  let ?n = "hg_sample_size hg"
  from hg_out_fold_total[OF rem m ok]
  obtain hg1 where o: "fold_err hg_out_record outs hg = Inr hg1" and m1: "hg_matches hg1 T1"
    and f1: "hg_sample_size hg1 = ?n" "hg_num_loci hg1 = hg_num_loci hg" by blast
  from m1 have ch1: "hg_children hg1 = T1"
    and tm1: "\<forall>j. fmlookup (hg_time hg1) j \<noteq> None \<longleftrightarrow>
           (1 \<le> j \<and> j \<le> hg_sample_size hg1) \<or> fmlookup T1 j \<noteq> None"
    and bl1: "\<forall>j. map_of (hg_branch_length hg1) j \<noteq> None \<longleftrightarrow> (\<exists>q. child_of T1 j q)"
    unfolding hg_matches_def by blast+
  let ?hgi = "fold hg_in_record ins hg1"
  from ins f1(1) have ins1: "insert_records (hg_sample_size hg1) ins T1 = Some T2" by simp
  from hg_in_fold[OF ins1 ch1 tm1]
  have i: "hg_children ?hgi = T2"
     "\<forall>j. fmlookup (hg_time ?hgi) j \<noteq> None \<longleftrightarrow> (1 \<le> j \<and> j \<le> ?n) \<or> fmlookup T2 j \<noteq> None"
     "hg_branch_length ?hgi = hg_branch_length hg1" "hg_sample_size ?hgi = ?n"
     "hg_num_loci ?hgi = hg_num_loci hg"
    using f1 by simp_all
  note kids = insert_records_children[OF ins]
  have tk: "\<forall>a b p t. ((a, b), p, t) \<in> set ins \<longrightarrow>
      fmlookup (hg_time ?hgi) a \<noteq> None \<and> fmlookup (hg_time ?hgi) b \<noteq> None"
  proof (intro allI impI)
    fix a b p t assume "((a, b), p, t) \<in> set ins"
    with kids have "child_of T2 a p" "child_of T2 b p" by blast+
    from complete_treeD[OF cmp this(1)] complete_treeD[OF cmp this(2)] i(2)
    show "fmlookup (hg_time ?hgi) a \<noteq> None \<and> fmlookup (hg_time ?hgi) b \<noteq> None" by blast
  qed
  from hg_length_fold[OF tk]
  obtain hg2 where l: "fold_err hg_length_record ins ?hgi = Inr hg2"
     and f2: "hg_children hg2 = hg_children ?hgi" "hg_time hg2 = hg_time ?hgi"
     "\<forall>j. map_of (hg_branch_length hg2) j \<noteq> None \<longleftrightarrow>
          map_of (hg_branch_length ?hgi) j \<noteq> None \<or>
          (\<exists>a b p t. ((a, b), p, t) \<in> set ins \<and> (j = a \<or> j = b))"
     "hg_sample_size hg2 = hg_sample_size ?hgi" "hg_num_loci hg2 = hg_num_loci ?hgi"
    by blast
  have b2: "map_of (hg_branch_length hg2) j \<noteq> None \<longleftrightarrow> (\<exists>q. child_of T2 j q)" for j
  proof -
    have "map_of (hg_branch_length hg2) j \<noteq> None \<longleftrightarrow>
        (\<exists>q. child_of T1 j q) \<or> (\<exists>a b p t. ((a, b), p, t) \<in> set ins \<and> (j = a \<or> j = b))"
      using f2(3) bl1 unfolding i(3) by blast
    also have "\<dots> \<longleftrightarrow> (\<exists>q. child_of T2 j q)" using kids by blast
    finally show ?thesis .
  qed
  have m2: "hg_matches hg2 T2"
    unfolding hg_matches_def using f2(1,2,4) i(1,2,4) b2 by simp
  have v1: "hg_view hg1 = hg_view hg"
    by (rule fold_err_keeps[OF _ o]) (auto simp: hg_view_def dest: hg_out_record_keeps)
  have v1': "hg_view ?hgi = hg_view hg1"
    by (rule fold_keeps) (simp add: hg_view_def hg_in_record_keeps)
  have "hg_view hg2 = hg_view ?hgi"
    by (rule fold_err_keeps[OF _ l]) (auto simp: hg_view_def dest: hg_length_record_keeps)
  with v1 v1' have v2: "hg_view hg2 = hg_view hg" by simp
  with rate have rate2: "hg_scaled_mutation_rate hg2 = 0" by (simp add: hg_view_def)
  have loci2: "hg_num_loci hg2 = hg_num_loci hg" using f2(5) i(5) by simp
  obtain k g where ps: "poisson lib (hg_rng hg2) 0 = (k, g)" by (cases "poisson lib (hg_rng hg2) 0")
  with p0 have k: "k = 0" by (metis fst_conv)
  let ?hg' = "hg2\<lparr>hg_rng := g\<rparr>"
  have step: "generate_step lib (len, outs, ins) (hg, br, pr) = Some (Inr (?hg', br, pr))"
    using o l loci by (simp add: generate_step_def rate2 loci2 ps k)
  have m3: "hg_matches ?hg' T2" using m2 unfolding hg_matches_def by simp
  have ok2: "tree_ok (hg_sample_size ?hg') T2"
    using insert_records_tree_ok[OF ins remove_records_tree_ok[OF rem ok]] f2(4) i(4) by simp
  have "hg_view ?hg' = hg_view hg" using v2 by (simp add: hg_view_def)
  with step m3 ok2 loci2 show ?thesis by (intro exI[of _ ?hg']) simp
qed

lemma generate_loop_total:
  assumes "\<forall>g. fst (poisson lib g 0) = 0"
    and "hg_scaled_mutation_rate hg = 0" and "0 < hg_num_loci hg"
    and "hg_matches hg T" and "tree_ok (hg_sample_size hg) T"
    and "valid_diffs (hg_sample_size hg) T ds"
  shows "\<exists>hg'. generate_loop lib ds (hg, br, pr) = Some (Inr (hg', br, pr)) \<and>
           hg_view hg' = hg_view hg"
  using assms(2-)
proof (induction ds arbitrary: hg T)
  case Nil
  then show ?case by simp
next
  case (Cons d ds)
  obtain len outs ins where d: "d = (len, outs, ins)" by (cases d) auto
  from Cons.prems(5) obtain T1 T2 where rem: "remove_records outs T = Some T1"
    and ins: "insert_records (hg_sample_size hg) ins T1 = Some T2"
    and cmp: "complete_tree (hg_sample_size hg) T2"
    and rest: "valid_diffs (hg_sample_size hg) T2 ds"
    unfolding d by (auto split: option.splits)
  from generate_step_total[OF assms(1) Cons.prems(1,2,3,4) rem ins cmp, of len br pr]
  obtain hg' where s: "generate_step lib (len, outs, ins) (hg, br, pr) = Some (Inr (hg', br, pr))"
    "hg_matches hg' T2" "tree_ok (hg_sample_size hg') T2" "hg_view hg' = hg_view hg"
    "hg_num_loci hg' = hg_num_loci hg" by blast
  from s(4) have n: "hg_sample_size hg' = hg_sample_size hg"
    and r: "hg_scaled_mutation_rate hg' = hg_scaled_mutation_rate hg"
    by (simp_all add: hg_view_def)
  have r': "hg_scaled_mutation_rate hg' = 0" using r Cons.prems(1) by simp
  have l': "0 < hg_num_loci hg'" using s(5) Cons.prems(2) by simp
  have v': "valid_diffs (hg_sample_size hg') T2 ds" using rest n by simp
  from Cons.IH[OF r' l' s(2,3) v'] s(1,4) show ?case
    unfolding d by (auto simp: bind_res_def)
qed

lemma fmlookup_samples:
  "fmlookup (fmap_of_list (map (\<lambda>j. (j, 0::real)) [1..<Suc n])) j \<noteq> None \<longleftrightarrow> 1 \<le> j \<and> j \<le> n"
proof -
  have "map_of (map (\<lambda>j. (j, 0::real)) [1..<Suc n]) j \<noteq> None \<longleftrightarrow> j \<in> set [1..<Suc n]"
    by (simp add: map_of_eq_None_iff image_image)
  then show ?thesis by (auto simp: fmlookup_of_list)
qed

lemma attrs_matches:
  "hg_matches (HaplotypeGenerator_attrs lib ts rate seed) fmempty"
proof -
  let ?hg = "HaplotypeGenerator_attrs lib ts rate seed"
  have f: "hg_children ?hg = fmempty" "hg_branch_length ?hg = []"
    "hg_time ?hg = fmap_of_list (map (\<lambda>j. (j, 0)) [1..<Suc (ts_sample_size ts)])"
    "hg_sample_size ?hg = ts_sample_size ts"
    by (simp_all add: HaplotypeGenerator_attrs_def)
  show ?thesis unfolding hg_matches_def f fmlookup_samples by (simp add: child_of_def)
qed


lemma tree_ok_empty: "tree_ok n fmempty"
  by (simp add: tree_ok_def child_of_def)

text \<open>
  Claim C6. For a valid tree sequence whose diffs build trees over its samples,
  with \<^verbatim>\<open>scaled_mutation_rate = 0\<close> and a \<^verbatim>\<open>poisson\<close> that draws 0 for the mean 0,
  the constructor of \<^verbatim>\<open>HaplotypeGenerator\<close> returns; the generator it returns has
  no segregating site, every row of \<^verbatim>\<open>haplotypes\<close> and of \<^verbatim>\<open>haplotype_strings\<close> is
  empty, and every entry of the matrix is \<^verbatim>\<open>'0'\<close>.
\<close>

theorem zero_rate_no_segregating_sites:
  assumes "\<forall>g. fst (poisson lib g 0) = 0"
    and "valid_tree_sequence ts" and "trees_over_samples ts"
  shows "\<exists>hg. HaplotypeGenerator_init lib ts 0 random_seed = Some (Inr hg) \<and>
           get_num_segregating_sites hg = 0 \<and>
           haplotypes hg = replicate (ts_sample_size ts) [] \<and>
           haplotype_strings hg = replicate (ts_sample_size ts) [] \<and>
           hg_haplotype hg = zero_matrix (ts_sample_size ts) (nat (ts_num_loci ts))"
proof -
  let ?hg = "HaplotypeGenerator_attrs lib ts 0 random_seed"
  let ?n = "ts_sample_size ts" and ?m = "ts_num_loci ts" and ?rs = "records ts"
  from assms(2) have vr: "valid_records ?n ?m ?rs" by (simp add: valid_tree_sequence_def)
  then have ne: "?rs \<noteq> []" and wf: "\<forall>rc\<in>set ?rs. well_formed_record ?n ?m ?rs rc"
    by (auto simp: valid_records_def list_all_iff)
  from ne have "hd ?rs \<in> set ?rs" by simp
  with wf have m0: "0 < ?m" by (fastforce simp: well_formed_record_def)
  from assms(3) have n0: "0 < ?n" and vd: "valid_diffs ?n fmempty (fst (diffs_plain ts))"
    by (simp_all add: trees_over_samples_def)
  have st: "snd (diffs_plain ts) = Exhausted"
    using ne by (simp add: diffs_plain_def diffs_loop_status)
  have f: "hg_scaled_mutation_rate ?hg = 0" "hg_num_loci ?hg = ?m" "hg_sample_size ?hg = ?n"
    by (simp_all add: HaplotypeGenerator_attrs_def)
  have l0: "0 < hg_num_loci ?hg" using m0 f by simp
  have ok: "tree_ok (hg_sample_size ?hg) fmempty" by (rule tree_ok_empty)
  have vd': "valid_diffs (hg_sample_size ?hg) fmempty (fst (diffs_plain ts))" using vd f by simp
  from generate_loop_total[OF assms(1) f(1) l0 attrs_matches ok vd',
      of "replicate (2 * ?n - 2) 0" "replicate (2 * ?n - 2) 0"]
  obtain hg' where r: "generate_loop lib (fst (diffs_plain ts))
        (?hg, replicate (2 * ?n - 2) 0, replicate (2 * ?n - 2) 0) =
      Some (Inr (hg', replicate (2 * ?n - 2) 0, replicate (2 * ?n - 2) 0))"
    and v: "hg_view hg' = hg_view ?hg" by blast
  have view: "hg_view ?hg = (zero_matrix ?n (nat ?m), 0, 0, ?n)"
    by (simp add: hg_view_def HaplotypeGenerator_attrs_def)
  obtain ds where ds: "diffs_plain ts = (ds, Exhausted)"
    using st by (cases "diffs_plain ts") auto
  have init: "HaplotypeGenerator_init lib ts 0 random_seed = Some (Inr hg')"
    using m0 n0 r
    by (simp add: HaplotypeGenerator_init_def generate_haplotypes_def f diffs_def bind_res_def ds)
  from v view have "get_num_segregating_sites hg' = 0 \<and>
           haplotypes hg' = replicate ?n [] \<and> haplotype_strings hg' = replicate ?n [] \<and>
           hg_haplotype hg' = zero_matrix ?n (nat ?m)"
    by (simp add: hg_view_def get_num_segregating_sites_def haplotypes_def
        haplotype_strings_def zero_matrix_def)
  with init show ?thesis by blast
qed

lemma trees_over_samples_ts_ex: "trees_over_samples ts_ex"
  unfolding trees_over_samples_def using ds_ex_valid ds_ex_diffs
  by (simp add: diffs_def ts_ex_def)

theorem zero_rate_no_segregating_sites_witness:
  "(\<forall>g. fst (poisson lib_ex g 0) = 0) \<and> valid_tree_sequence ts_ex \<and> trees_over_samples ts_ex \<and>
   (\<exists>hg. HaplotypeGenerator_init lib_ex ts_ex 0 None = Some (Inr hg) \<and>
      get_num_segregating_sites hg = 0 \<and> haplotypes hg = [[], [], []] \<and>
      hg_haplotype hg = zero_matrix 3 10)"
proof -
  have p: "\<forall>g. fst (poisson lib_ex g 0) = 0" by (simp add: lib_ex_def)
  from zero_rate_no_segregating_sites[OF p valid_ts_ex trees_over_samples_ts_ex, of None]
  have "\<exists>hg. HaplotypeGenerator_init lib_ex ts_ex 0 None = Some (Inr hg) \<and>
      get_num_segregating_sites hg = 0 \<and> haplotypes hg = [[], [], []] \<and>
      hg_haplotype hg = zero_matrix 3 10"
    by (auto simp: ts_ex_def numeral_3_eq_3)
  with p valid_ts_ex trees_over_samples_ts_ex show ?thesis by blast
qed
















end
